theory Spec2Isabelle
  imports Complex_Main
begin

section \<open>Python and NumPy primitives used by the scripts\<close>

text \<open>
  The scripts under \<^verbatim>\<open>poc/uvr_coreml\<close> are written against NumPy. Samples are
  modelled as \<^typ>\<open>real\<close> (the \<^verbatim>\<open>float32\<close> casts are dropped), spectra as
  \<^typ>\<open>complex\<close>, Python integers as \<^typ>\<open>int\<close>, one-dimensional arrays as lists.
  Every exception the code can raise is a value.
\<close>

datatype error = ValueError | IndexError | ZeroDivisionError

text \<open>Python's \<^verbatim>\<open>a // b\<close>: floor division, \<^verbatim>\<open>ZeroDivisionError\<close> on a zero divisor.\<close>

definition py_floordiv :: "int \<Rightarrow> int \<Rightarrow> error + int" where
  "py_floordiv a b = (if b = 0 then Inl ZeroDivisionError else Inr (a div b))"

text \<open>\<^verbatim>\<open>range(n)\<close>: empty for \<^verbatim>\<open>n <= 0\<close>.\<close>

definition py_range :: "int \<Rightarrow> int list" where
  "py_range n = map int [0..<nat n]"

text \<open>
  One bound of a slice \<^verbatim>\<open>xs[a:b]\<close>: a negative bound counts from the end, and the
  result is clipped to the array.
\<close>

definition slice_bound :: "nat \<Rightarrow> int \<Rightarrow> nat" where
  "slice_bound n a = nat (min (int n) (max 0 (if a < 0 then a + int n else a)))"

definition py_slice :: "'a list \<Rightarrow> int \<Rightarrow> int \<Rightarrow> 'a list" where
  "py_slice xs a b =
     (let lo = slice_bound (length xs) a; hi = slice_bound (length xs) b
      in take (hi - lo) (drop lo xs))"

text \<open>
  Elementwise binary operation of two one-dimensional arrays under NumPy broadcasting:
  equal lengths, or one operand of length one, anything else raises \<^verbatim>\<open>ValueError\<close>.
\<close>

definition np_binop :: "('a \<Rightarrow> 'b \<Rightarrow> 'c) \<Rightarrow> 'a list \<Rightarrow> 'b list \<Rightarrow> error + 'c list" where
  "np_binop f xs ys =
     (if length xs = length ys then Inr (map2 f xs ys)
      else if length xs = 1 then Inr (map (f (hd xs)) ys)
      else if length ys = 1 then Inr (map (\<lambda>x. f x (hd ys)) xs)
      else Inl ValueError)"

text \<open>\<^verbatim>\<open>np.zeros(n)\<close>: a negative dimension raises \<^verbatim>\<open>ValueError\<close>.\<close>

definition np_zeros :: "int \<Rightarrow> error + real list" where
  "np_zeros n = (if n < 0 then Inl ValueError else Inr (replicate (nat n) 0))"

text \<open>
  \<^verbatim>\<open>np.hanning(M)\<close>, as NumPy defines it: empty for \<^verbatim>\<open>M < 1\<close>, \<^verbatim>\<open>ones(1)\<close> for
  \<^verbatim>\<open>M == 1\<close>, otherwise \<^verbatim>\<open>0.5 + 0.5*cos(pi*n/(M-1))\<close> for
  \<^verbatim>\<open>n in arange(1-M, M, 2)\<close>.
\<close>

definition hanning :: "int \<Rightarrow> real list" where
  "hanning M =
     (if M < 1 then []
      else if M = 1 then [1]
      else map (\<lambda>j. 0.5 + 0.5 * cos (pi * real_of_int (1 - M + 2 * int j) / real_of_int (M - 1)))
             [0..<nat M])"

section \<open>Framing (\<^verbatim>\<open>test_stft_simple.py\<close>, forward loop)\<close>

text \<open>
  \<^verbatim>\<open>num_frames = (len(signal) - n_fft) // hop_length + 1\<close>
\<close>

definition num_frames :: "'a list \<Rightarrow> int \<Rightarrow> int \<Rightarrow> error + int" where
  "num_frames signal n_fft hop_length =
     (case py_floordiv (int (length signal) - n_fft) hop_length of
        Inl e \<Rightarrow> Inl e
      | Inr q \<Rightarrow> Inr (q + 1))"

text \<open>
  The slices the forward loop takes, one per \<^verbatim>\<open>frame_idx in range(num_frames)\<close>:
  \<^verbatim>\<open>signal[start:start + n_fft]\<close> with \<^verbatim>\<open>start = frame_idx * hop_length\<close>.
\<close>

definition frames :: "'a list \<Rightarrow> int \<Rightarrow> int \<Rightarrow> error + 'a list list" where
  "frames signal n_fft hop_length =
     (case num_frames signal n_fft hop_length of
        Inl e \<Rightarrow> Inl e
      | Inr nf \<Rightarrow>
          Inr (map (\<lambda>frame_idx. py_slice signal (frame_idx * hop_length)
                                   (frame_idx * hop_length + n_fft))
                 (py_range nf)))"

section \<open>The discrete Fourier transform of \<^verbatim>\<open>np.fft\<close>\<close>

text \<open>
  NumPy documents \<^verbatim>\<open>np.fft.fft\<close> as
  \<open>A\<^sub>k = \<Sum>\<^sub>m a\<^sub>m exp(-2\<pi>i mk/n)\<close> and \<^verbatim>\<open>np.fft.ifft\<close> as
  \<open>a\<^sub>m = (1/n) \<Sum>\<^sub>k A\<^sub>k exp(2\<pi>i mk/n)\<close>, with no other scaling.
\<close>

definition dft :: "complex list \<Rightarrow> complex list" where
  "dft a = map (\<lambda>k. \<Sum>m<length a. a ! m * cis (- (2 * pi * real m * real k / real (length a))))
             [0..<length a]"

definition idft :: "complex list \<Rightarrow> complex list" where
  "idft A = map (\<lambda>m. (\<Sum>k<length A. A ! k * cis (2 * pi * real m * real k / real (length A)))
                       / of_nat (length A))
              [0..<length A]"

text \<open>Both raise \<^verbatim>\<open>ValueError\<close> (invalid number of data points) on an empty array.\<close>

definition np_fft :: "complex list \<Rightarrow> error + complex list" where
  "np_fft a = (if length a < 1 then Inl ValueError else Inr (dft a))"

definition np_ifft :: "complex list \<Rightarrow> error + complex list" where
  "np_ifft A = (if length A < 1 then Inl ValueError else Inr (idft A))"

text \<open>
  \<^verbatim>\<open>np.fft.rfft\<close>: the first \<open>n div 2 + 1\<close> bins of the transform of a real array.
\<close>

definition np_rfft :: "real list \<Rightarrow> error + complex list" where
  "np_rfft x =
     (if length x < 1 then Inl ValueError
      else Inr (take (length x div 2 + 1) (dft (map complex_of_real x))))"

text \<open>
  The full spectrum of \<open>n\<close> bins that a half spectrum stands for: the bins above
  \<open>n div 2\<close> are the conjugates of their mirror images.
\<close>

definition hermitian_extend :: "nat \<Rightarrow> complex list \<Rightarrow> complex list" where
  "hermitian_extend n A = map (\<lambda>k. if k \<le> n div 2 then A ! k else cnj (A ! (n - k))) [0..<n]"

text \<open>
  \<^verbatim>\<open>np.fft.irfft(A)\<close> as the scripts call it, with no length argument: the output
  has \<open>n = 2 * (len(A) - 1)\<close> samples, \<^verbatim>\<open>ValueError\<close> when that is below one, and is
  the real inverse transform of the conjugate-symmetric spectrum that \<open>A\<close> stands for.
\<close>

definition np_irfft :: "complex list \<Rightarrow> error + real list" where
  "np_irfft A =
     (let n = 2 * (int (length A) - 1)
      in if n < 1 then Inl ValueError
         else Inr (map Re (idft (hermitian_extend (nat n) A))))"

section \<open>The manual STFT and inverse STFT (\<^verbatim>\<open>test_stft_simple.py\<close>)\<close>

text \<open>
  The forward loop: each frame is multiplied by the window and transformed;
  \<^verbatim>\<open>stft_result\<close> collects the spectra in order.
\<close>

fun stft_loop :: "real list \<Rightarrow> int \<Rightarrow> int \<Rightarrow> real list \<Rightarrow> int list \<Rightarrow> error + complex list list" where
  "stft_loop signal n_fft hop_length window [] = Inr []"
| "stft_loop signal n_fft hop_length window (frame_idx # rest) =
     (let start = frame_idx * hop_length;
          frame = py_slice signal start (start + n_fft)
      in case np_binop (*) frame window of
           Inl e \<Rightarrow> Inl e
         | Inr windowed \<Rightarrow>
             (case np_fft (map complex_of_real windowed) of
                Inl e \<Rightarrow> Inl e
              | Inr fft_result \<Rightarrow>
                  (case stft_loop signal n_fft hop_length window rest of
                     Inl e \<Rightarrow> Inl e
                   | Inr stft_result \<Rightarrow> Inr (fft_result # stft_result))))"

text \<open>
  \<^verbatim>\<open>out[a:b] += v\<close>: \<open>v\<close> is broadcast against the slice and the sum must have the
  shape of the slice.
\<close>

definition slice_add :: "real list \<Rightarrow> int \<Rightarrow> int \<Rightarrow> real list \<Rightarrow> error + real list" where
  "slice_add out a b v =
     (let lo = slice_bound (length out) a; hi = slice_bound (length out) b
      in case np_binop (+) (take (hi - lo) (drop lo out)) v of
           Inl e \<Rightarrow> Inl e
         | Inr s \<Rightarrow>
             if length s = hi - lo
             then Inr (take lo out @ s @ drop (lo + (hi - lo)) out)
             else Inl ValueError)"

text \<open>
  The inverse loop, on the pair \<^verbatim>\<open>(output, window_sum)\<close> of accumulators:
  \<^verbatim>\<open>ifft_result = np.fft.ifft(stft_result[frame_idx]).real\<close>,
  \<^verbatim>\<open>windowed_output = ifft_result * window\<close>,
  \<^verbatim>\<open>output[start:start + n_fft] += windowed_output\<close>,
  \<^verbatim>\<open>window_sum[start:start + n_fft] += window\<close>.
\<close>

fun istft_loop :: "complex list list \<Rightarrow> int \<Rightarrow> int \<Rightarrow> real list \<Rightarrow> int list \<Rightarrow>
    real list \<times> real list \<Rightarrow> error + real list \<times> real list" where
  "istft_loop stft_result n_fft hop_length window [] acc = Inr acc"
| "istft_loop stft_result n_fft hop_length window (frame_idx # rest) (output, window_sum) =
     (if frame_idx < 0 \<or> int (length stft_result) \<le> frame_idx then Inl IndexError
      else case np_ifft (stft_result ! nat frame_idx) of
             Inl e \<Rightarrow> Inl e
           | Inr y \<Rightarrow>
               (let ifft_result = map Re y
                in case np_binop (*) ifft_result window of
                     Inl e \<Rightarrow> Inl e
                   | Inr windowed_output \<Rightarrow>
                       (let start = frame_idx * hop_length
                        in case slice_add output start (start + n_fft) windowed_output of
                             Inl e \<Rightarrow> Inl e
                           | Inr output' \<Rightarrow>
                               (case slice_add window_sum start (start + n_fft) window of
                                  Inl e \<Rightarrow> Inl e
                                | Inr window_sum' \<Rightarrow>
                                    istft_loop stft_result n_fft hop_length window rest
                                      (output', window_sum')))))"

text \<open>
  The two accumulators after the inverse loop, for a given window:
  \<^verbatim>\<open>output_length = (num_frames - 1) * hop_length + n_fft\<close>, both arrays start as
  \<^verbatim>\<open>np.zeros(output_length)\<close>.
\<close>

definition overlap_add :: "real list \<Rightarrow> int \<Rightarrow> int \<Rightarrow> real list \<Rightarrow> error + real list \<times> real list" where
  "overlap_add signal n_fft hop_length window =
     (case num_frames signal n_fft hop_length of
        Inl e \<Rightarrow> Inl e
      | Inr nf \<Rightarrow>
          (case stft_loop signal n_fft hop_length window (py_range nf) of
             Inl e \<Rightarrow> Inl e
           | Inr stft_result \<Rightarrow>
               (case np_zeros ((nf - 1) * hop_length + n_fft) of
                  Inl e \<Rightarrow> Inl e
                | Inr zeros \<Rightarrow>
                    istft_loop stft_result n_fft hop_length window (py_range nf) (zeros, zeros))))"

text \<open>
  \<^verbatim>\<open>window_sum = np.where(window_sum > 1e-8, window_sum, 1.0)\<close> and
  \<^verbatim>\<open>reconstructed = output / window_sum\<close>.
\<close>

definition normalize :: "real list \<Rightarrow> real list \<Rightarrow> error + real list" where
  "normalize output window_sum =
     np_binop (/) output (map (\<lambda>s. if s > 1 / 10 ^ 8 then s else 1) window_sum)"

text \<open>
  \<^verbatim>\<open>manual_stft_istft\<close> with the signal, \<^verbatim>\<open>n_fft\<close> and \<^verbatim>\<open>hop_length\<close> as
  parameters (the script fixes 16 ones, 8 and 2); the window is \<^verbatim>\<open>np.hanning(n_fft)\<close>
  and the value is \<^verbatim>\<open>reconstructed\<close>.
\<close>

definition manual_stft_istft :: "real list \<Rightarrow> int \<Rightarrow> int \<Rightarrow> error + real list" where
  "manual_stft_istft signal n_fft hop_length =
     (case overlap_add signal n_fft hop_length (hanning n_fft) of
        Inl e \<Rightarrow> Inl e
      | Inr (output, window_sum) \<Rightarrow> normalize output window_sum)"

section \<open>Analysis and synthesis of a single frame\<close>

text \<open>
  One frame through the transform pair of \<^verbatim>\<open>manual_stft_istft\<close> (lines 44 and 61):
  \<^verbatim>\<open>np.fft.ifft(np.fft.fft(windowed)).real\<close>.
\<close>

definition fft_ifft_real :: "real list \<Rightarrow> error + real list" where
  "fft_ifft_real windowed =
     (case np_fft (map complex_of_real windowed) of
        Inl e \<Rightarrow> Inl e
      | Inr fft_result \<Rightarrow>
          (case np_ifft fft_result of
             Inl e \<Rightarrow> Inl e
           | Inr y \<Rightarrow> Inr (map Re y)))"

text \<open>
  One frame through the half-spectrum pair of \<^verbatim>\<open>compare_stft_scaling.py\<close>
  (lines 55 and 56): \<^verbatim>\<open>np.fft.irfft(np.fft.rfft(test_frame))\<close>.
\<close>

definition rfft_irfft :: "real list \<Rightarrow> error + real list" where
  "rfft_irfft test_frame =
     (case np_rfft test_frame of
        Inl e \<Rightarrow> Inl e
      | Inr fft_result \<Rightarrow> np_irfft fft_result)"

text \<open>
  The analysis of \<^verbatim>\<open>compare_dft_single_frame.py\<close>: the transform of the windowed
  frame, cut to \<^verbatim>\<open>frequency_bins = n_fft // 2 + 1\<close> bins
  (\<^verbatim>\<open>fft_result[:frequency_bins]\<close>, of which the script takes real and imaginary
  parts); \<^verbatim>\<open>n_fft\<close> is the length of the frame.
\<close>

definition half_spectrum :: "real list \<Rightarrow> error + complex list" where
  "half_spectrum windowed_signal =
     (case np_fft (map complex_of_real windowed_signal) of
        Inl e \<Rightarrow> Inl e
      | Inr fft_result \<Rightarrow>
          Inr (py_slice fft_result 0 (int (length windowed_signal) div 2 + 1)))"

text \<open>
  The test signal of \<^verbatim>\<open>compare_dft_single_frame.py\<close> (lines 26 and 27):
  \<^verbatim>\<open>t = np.arange(n_fft) / sample_rate\<close>,
  \<^verbatim>\<open>signal = np.sin(2.0 * np.pi * frequency * t)\<close>.
\<close>

definition sine_signal :: "real \<Rightarrow> real \<Rightarrow> int \<Rightarrow> real list" where
  "sine_signal frequency sample_rate n_fft =
     map (\<lambda>n. sin (2 * pi * frequency * (real_of_int n / sample_rate))) (py_range n_fft)"

text \<open>
  \<^verbatim>\<open>librosa.filters.get_window('hann', n_fft, fftbins=True)\<close> (line 33) is SciPy's
  periodic Hann window: a negative length raises \<^verbatim>\<open>ValueError\<close>, a length of at
  most one gives ones, otherwise the window is \<^verbatim>\<open>0.5 + 0.5*cos(fac)\<close> on the first
  \<open>M\<close> of the \<open>M + 1\<close> points of \<^verbatim>\<open>fac = linspace(-pi, pi, M + 1)\<close>.
\<close>

definition get_window_hann :: "int \<Rightarrow> error + real list" where
  "get_window_hann M =
     (if M < 0 then Inl ValueError
      else if M \<le> 1 then Inr (replicate (nat M) 1)
      else Inr (map (\<lambda>n. 0.5 + 0.5 * cos (- pi + real n * (2 * pi / real_of_int M)))
                  [0..<nat M]))"

text \<open>
  Lines 34 to 48: \<^verbatim>\<open>windowed_signal = signal * window\<close>, the transform cut to
  \<^verbatim>\<open>frequency_bins\<close> bins, and \<^verbatim>\<open>magnitude = np.abs(fft_result[:frequency_bins])\<close>.
\<close>

definition single_frame_magnitude :: "real \<Rightarrow> real \<Rightarrow> int \<Rightarrow> error + real list" where
  "single_frame_magnitude frequency sample_rate n_fft =
     (case get_window_hann n_fft of
        Inl e \<Rightarrow> Inl e
      | Inr window \<Rightarrow>
          (case np_binop (*) (sine_signal frequency sample_rate n_fft) window of
             Inl e \<Rightarrow> Inl e
           | Inr windowed_signal \<Rightarrow>
               (case half_spectrum windowed_signal of
                  Inl e \<Rightarrow> Inl e
                | Inr bins \<Rightarrow> Inr (map cmod bins))))"

text \<open>\<^verbatim>\<open>np.round\<close> rounds to the nearest integer and a tie to the even neighbour.\<close>

definition np_round :: "real \<Rightarrow> int" where
  "np_round x =
     (let f = \<lfloor>x\<rfloor>; d = x - real_of_int f
      in if d < 1 / 2 then f
         else if 1 / 2 < d then f + 1
         else if even f then f else f + 1)"

text \<open>
  Line 52: \<^verbatim>\<open>expected_bin = int(np.round(frequency * n_fft / sample_rate))\<close>, a division
  of Python floats, which raises \<^verbatim>\<open>ZeroDivisionError\<close> on a zero sample rate.
\<close>

definition expected_bin :: "real \<Rightarrow> real \<Rightarrow> int \<Rightarrow> error + int" where
  "expected_bin frequency sample_rate n_fft =
     (if sample_rate = 0 then Inl ZeroDivisionError
      else Inr (np_round (frequency * real_of_int n_fft / sample_rate)))"

section \<open>Three-dimensional arrays\<close>

text \<open>
  A NumPy array with three axes, here \<^verbatim>\<open>[channels, freq, time]\<close>: its shape and its
  entries as nested lists, outermost axis first. The shape is kept beside the entries
  because an array may have an empty axis.
\<close>

record 'a array3 =
  shape :: "nat \<times> nat \<times> nat"
  vals :: "'a list list list"

definition dim0 :: "'a array3 \<Rightarrow> nat" where
  "dim0 a = fst (shape a)"

definition dim1 :: "'a array3 \<Rightarrow> nat" where
  "dim1 a = fst (snd (shape a))"

definition dim2 :: "'a array3 \<Rightarrow> nat" where
  "dim2 a = snd (snd (shape a))"

text \<open>The entry \<^verbatim>\<open>a[c, f, t]\<close>, for indices inside the shape.\<close>

definition item :: "'a array3 \<Rightarrow> nat \<Rightarrow> nat \<Rightarrow> nat \<Rightarrow> 'a" where
  "item a c f t = vals a ! c ! f ! t"

text \<open>The array of a given shape whose entry at \<open>(c, f, t)\<close> is \<open>g c f t\<close>.\<close>

definition mk3 :: "nat \<times> nat \<times> nat \<Rightarrow> (nat \<Rightarrow> nat \<Rightarrow> nat \<Rightarrow> 'a) \<Rightarrow> 'a array3" where
  "mk3 sh g =
     (case sh of (C, F, T) \<Rightarrow>
        \<lparr>shape = sh, vals = map (\<lambda>c. map (\<lambda>f. map (g c f) [0..<T]) [0..<F]) [0..<C]\<rparr>)"

text \<open>An elementwise function, as \<^verbatim>\<open>np.real\<close>, \<^verbatim>\<open>np.imag\<close>, \<^verbatim>\<open>np.abs\<close>.\<close>

definition np_map :: "('a \<Rightarrow> 'b) \<Rightarrow> 'a array3 \<Rightarrow> 'b array3" where
  "np_map h a = mk3 (shape a) (\<lambda>c f t. h (item a c f t))"

text \<open>\<^verbatim>\<open>a[:, :k, :]\<close> for a non-negative \<open>k\<close>.\<close>

definition slice_axis1 :: "'a array3 \<Rightarrow> nat \<Rightarrow> 'a array3" where
  "slice_axis1 a k = mk3 (dim0 a, min (dim1 a) k, dim2 a) (item a)"

text \<open>\<^verbatim>\<open>a[:, :, lo:hi]\<close> with Python's treatment of the two bounds.\<close>

definition slice_axis2 :: "'a array3 \<Rightarrow> int \<Rightarrow> int \<Rightarrow> 'a array3" where
  "slice_axis2 a lo hi =
     (let l = slice_bound (dim2 a) lo; h = slice_bound (dim2 a) hi
      in mk3 (dim0 a, dim1 a, h - l) (\<lambda>c f t. item a c f (l + t)))"

text \<open>
  \<^verbatim>\<open>np.pad(a, ((0, 0), (0, 0), (0, pad_width)))\<close> in the default mode
  \<^verbatim>\<open>'constant'\<close>: \<open>pad_width\<close> zeros after the last time step, nothing before
  it and nothing on the other axes.
\<close>

definition pad_axis2 :: "real array3 \<Rightarrow> nat \<Rightarrow> real array3" where
  "pad_axis2 a pad_width =
     mk3 (dim0 a, dim1 a, dim2 a + pad_width) (\<lambda>c f t. if t < dim2 a then item a c f t else 0)"

section \<open>The chunked inference adapter (\<^verbatim>\<open>run_onnx_inference\<close>)\<close>

text \<open>
  The function is the same in \<^verbatim>\<open>python/test_separation.py\<close> and in
  \<^verbatim>\<open>test_python_reference.py\<close>. The four planes handed to the model:
  \<^verbatim>\<open>np.stack([real_chunk[0], imag_chunk[0],
    real_chunk[1] if channels > 1 else real_chunk[0],
    imag_chunk[1] if channels > 1 else imag_chunk[0]], axis=0)\<close>.
  Indexing a missing channel raises \<^verbatim>\<open>IndexError\<close>, stacking planes of different
  shapes raises \<^verbatim>\<open>ValueError\<close>.
\<close>

definition stack_input :: "real array3 \<Rightarrow> real array3 \<Rightarrow> nat \<Rightarrow> error + real array3" where
  "stack_input real_chunk imag_chunk channels =
     (let right = (if channels > 1 then 1 else 0)
      in if dim0 real_chunk \<le> right \<or> dim0 imag_chunk \<le> right then Inl IndexError
         else if (dim1 imag_chunk, dim2 imag_chunk) \<noteq> (dim1 real_chunk, dim2 real_chunk)
         then Inl ValueError
         else Inr (mk3 (4, dim1 real_chunk, dim2 real_chunk)
                (\<lambda>p f t. if p = 0 then item real_chunk 0 f t
                         else if p = 1 then item imag_chunk 0 f t
                         else if p = 2 then item real_chunk right f t
                         else item imag_chunk right f t)))"

text \<open>
  The tensor built for the time slice \<^verbatim>\<open>start_idx:end_idx\<close>: the two slices, the
  padding \<^verbatim>\<open>if real_chunk.shape[2] < chunk_size\<close>, and the stacking.
\<close>

definition chunk_input :: "real array3 \<Rightarrow> real array3 \<Rightarrow> nat \<Rightarrow> int \<Rightarrow> int \<Rightarrow> int \<Rightarrow>
    error + real array3" where
  "chunk_input real_part imag_part channels chunk_size start_idx end_idx =
     (let real_chunk = slice_axis2 real_part start_idx end_idx;
          imag_chunk = slice_axis2 imag_part start_idx end_idx
      in if int (dim2 real_chunk) < chunk_size
         then (let pad_width = nat (chunk_size - int (dim2 real_chunk))
               in stack_input (pad_axis2 real_chunk pad_width) (pad_axis2 imag_chunk pad_width)
                    channels)
         else stack_input real_chunk imag_chunk channels)"

text \<open>
  \<^verbatim>\<open>left_complex = mask_chunk[0] + 1j * mask_chunk[1]\<close>,
  \<^verbatim>\<open>right_complex = mask_chunk[2] + 1j * mask_chunk[3]\<close>,
  \<^verbatim>\<open>combined_mask = np.stack([left_complex, right_complex], axis=0)\<close>.
\<close>

definition complex_mask :: "real array3 \<Rightarrow> error + complex array3" where
  "complex_mask mask_chunk =
     (if dim0 mask_chunk < 4 then Inl IndexError
      else Inr (mk3 (2, dim1 mask_chunk, dim2 mask_chunk)
             (\<lambda>c f t. Complex (item mask_chunk (2 * c) f t) (item mask_chunk (2 * c + 1) f t))))"

text \<open>
  One turn of the loop, for the chunk index \<open>i\<close>. The inference engine is the parameter
  \<open>infer\<close>: it stands for \<^verbatim>\<open>session.run\<close> on the batch of one and for
  \<^verbatim>\<open>outputs[0][0]\<close>, so it takes and returns an array \<^verbatim>\<open>[4, freq, time]\<close>.
\<close>

definition process_chunk :: "(real array3 \<Rightarrow> real array3) \<Rightarrow> real array3 \<Rightarrow> real array3 \<Rightarrow>
    nat \<Rightarrow> nat \<Rightarrow> int \<Rightarrow> int \<Rightarrow> error + complex array3" where
  "process_chunk infer real_part imag_part channels time_frames chunk_size i =
     (let start_idx = i * chunk_size;
          end_idx = min ((i + 1) * chunk_size) (int time_frames)
      in case chunk_input real_part imag_part channels chunk_size start_idx end_idx of
           Inl e \<Rightarrow> Inl e
         | Inr input_data \<Rightarrow>
             (case complex_mask (infer input_data) of
                Inl e \<Rightarrow> Inl e
              | Inr combined_mask \<Rightarrow>
                  Inr (if end_idx - start_idx < chunk_size
                       then slice_axis2 combined_mask 0 (end_idx - start_idx)
                       else combined_mask)))"

text \<open>The loop over \<^verbatim>\<open>range(num_chunks)\<close>; \<^verbatim>\<open>masks\<close> grows at its end.\<close>

fun chunk_loop :: "(real array3 \<Rightarrow> real array3) \<Rightarrow> real array3 \<Rightarrow> real array3 \<Rightarrow>
    nat \<Rightarrow> nat \<Rightarrow> int \<Rightarrow> int list \<Rightarrow> error + complex array3 list" where
  "chunk_loop infer real_part imag_part channels time_frames chunk_size [] = Inr []"
| "chunk_loop infer real_part imag_part channels time_frames chunk_size (i # rest) =
     (case process_chunk infer real_part imag_part channels time_frames chunk_size i of
        Inl e \<Rightarrow> Inl e
      | Inr combined_mask \<Rightarrow>
          (case chunk_loop infer real_part imag_part channels time_frames chunk_size rest of
             Inl e \<Rightarrow> Inl e
           | Inr masks \<Rightarrow> Inr (combined_mask # masks)))"

text \<open>
  \<^verbatim>\<open>if freq_bins > 2048: real_part = real_part[:, :2048, :]\<close>, and the same for
  the imaginary part.
\<close>

definition truncate_bins :: "'a array3 \<Rightarrow> nat \<Rightarrow> 'a array3" where
  "truncate_bins part freq_bins = (if freq_bins > 2048 then slice_axis1 part 2048 else part)"

text \<open>The list \<^verbatim>\<open>masks\<close> after the loop.\<close>

definition chunk_masks :: "(real array3 \<Rightarrow> real array3) \<Rightarrow> complex array3 \<Rightarrow> int \<Rightarrow>
    error + complex array3 list" where
  "chunk_masks infer spectrogram chunk_size =
     (let channels = dim0 spectrogram; freq_bins = dim1 spectrogram;
          time_frames = dim2 spectrogram;
          real_part = truncate_bins (np_map Re spectrogram) freq_bins;
          imag_part = truncate_bins (np_map Im spectrogram) freq_bins
      in case py_floordiv (int time_frames + chunk_size - 1) chunk_size of
           Inl e \<Rightarrow> Inl e
         | Inr num_chunks \<Rightarrow>
             chunk_loop infer real_part imag_part channels time_frames chunk_size
               (py_range num_chunks))"

text \<open>
  \<^verbatim>\<open>np.concatenate(masks, axis=2)\<close>: \<^verbatim>\<open>ValueError\<close> on an empty list and on arrays
  that differ on another axis. The entry at time \<open>t\<close> is found by walking the list.
\<close>

fun cat_item :: "'a array3 list \<Rightarrow> nat \<Rightarrow> nat \<Rightarrow> nat \<Rightarrow> 'a" where
  "cat_item [m] c f t = item m c f t"
| "cat_item (m # ms) c f t =
     (if t < dim2 m then item m c f t else cat_item ms c f (t - dim2 m))"

definition concatenate_axis2 :: "'a array3 list \<Rightarrow> error + 'a array3" where
  "concatenate_axis2 masks =
     (case masks of
        [] \<Rightarrow> Inl ValueError
      | m # ms \<Rightarrow>
          if list_ex (\<lambda>m'. (dim0 m', dim1 m') \<noteq> (dim0 m, dim1 m)) ms then Inl ValueError
          else Inr (mk3 (dim0 m, dim1 m, sum_list (map dim2 masks)) (cat_item masks)))"

definition run_onnx_inference :: "(real array3 \<Rightarrow> real array3) \<Rightarrow> complex array3 \<Rightarrow> int \<Rightarrow>
    error + complex array3" where
  "run_onnx_inference infer spectrogram chunk_size =
     (case chunk_masks infer spectrogram chunk_size of
        Inl e \<Rightarrow> Inl e
      | Inr masks \<Rightarrow> concatenate_axis2 masks)"

section \<open>Masks (\<^verbatim>\<open>python/test_separation.py\<close>)\<close>

text \<open>
  NumPy's broadcasting of one axis: equal extents, or one of them 1; anything else
  raises \<^verbatim>\<open>ValueError\<close> (operands could not be broadcast together).
\<close>

definition broadcast_dim :: "nat \<Rightarrow> nat \<Rightarrow> error + nat" where
  "broadcast_dim a b =
     (if a = b then Inr a else if a = 1 then Inr b else if b = 1 then Inr a else Inl ValueError)"

definition broadcast_shape :: "nat \<times> nat \<times> nat \<Rightarrow> nat \<times> nat \<times> nat \<Rightarrow>
    error + nat \<times> nat \<times> nat" where
  "broadcast_shape sa sb =
     (case (sa, sb) of ((a0, a1, a2), (b0, b1, b2)) \<Rightarrow>
        (case broadcast_dim a0 b0 of
           Inl e \<Rightarrow> Inl e
         | Inr d0 \<Rightarrow>
             (case broadcast_dim a1 b1 of
                Inl e \<Rightarrow> Inl e
              | Inr d1 \<Rightarrow>
                  (case broadcast_dim a2 b2 of
                     Inl e \<Rightarrow> Inl e
                   | Inr d2 \<Rightarrow> Inr (d0, d1, d2)))))"

text \<open>The entry of an operand that takes part at \<open>(c, f, t)\<close> of the broadcast result.\<close>

definition bitem :: "'a array3 \<Rightarrow> nat \<Rightarrow> nat \<Rightarrow> nat \<Rightarrow> 'a" where
  "bitem a c f t =
     item a (if dim0 a = 1 then 0 else c) (if dim1 a = 1 then 0 else f) (if dim2 a = 1 then 0 else t)"

text \<open>
  \<^verbatim>\<open>apply_mask\<close>: \<^verbatim>\<open>masked_spectrogram = spectrogram * mask\<close>, the product of two
  arrays under broadcasting. The function has no check of its own.
\<close>

definition apply_mask :: "complex array3 \<Rightarrow> complex array3 \<Rightarrow> error + complex array3" where
  "apply_mask spectrogram mask' =
     (case broadcast_shape (shape spectrogram) (shape mask') of
        Inl e \<Rightarrow> Inl e
      | Inr sh \<Rightarrow> Inr (mk3 sh (\<lambda>c f t. bitem spectrogram c f t * bitem mask' c f t)))"

text \<open>
  \<^verbatim>\<open>np.angle(z)\<close> is \<^verbatim>\<open>arctan2(z.imag, z.real)\<close>, in \<open>(-\<pi>, \<pi>]\<close> and 0 at the
  origin (signed zeros are not modelled).
\<close>

definition arctan2 :: "real \<Rightarrow> real \<Rightarrow> real" where
  "arctan2 y x =
     (if 0 < x then arctan (y / x)
      else if x < 0 then (if 0 \<le> y then arctan (y / x) + pi else arctan (y / x) - pi)
      else if 0 < y then pi / 2
      else if y < 0 then - (pi / 2)
      else 0)"

definition np_angle :: "complex \<Rightarrow> real" where
  "np_angle z = arctan2 (Im z) (Re z)"

text \<open>
  One entry of the instrumental mask in \<^verbatim>\<open>main\<close>:
  \<^verbatim>\<open>vocal_mask_magnitude = np.abs(vocal_mask)\<close>,
  \<^verbatim>\<open>instrumental_mask = (1.0 - vocal_mask_magnitude) * np.exp(1j * np.angle(vocal_mask))\<close>;
  both lines work entry by entry.
\<close>

definition instrumental_entry :: "complex \<Rightarrow> complex" where
  "instrumental_entry m =
     complex_of_real (1 - cmod m) * exp (\<i> * complex_of_real (np_angle m))"

definition instrumental_mask :: "complex array3 \<Rightarrow> complex array3" where
  "instrumental_mask vocal_mask = np_map instrumental_entry vocal_mask"

section \<open>Auxiliary notions for the proofs\<close>

text \<open>What \<^const>\<open>slice_add\<close> computes when the slice lies inside the array.\<close>

definition add_at :: "nat \<Rightarrow> real list \<Rightarrow> real list \<Rightarrow> real list" where
  "add_at a v out = take a out @ map2 (+) (take (length v) (drop a out)) v @ drop (a + length v) out"

text \<open>The frame with index \<open>i\<close> after the analysis window, for a natural hop \<open>h\<close>.\<close>

definition windowed_frame :: "real list \<Rightarrow> nat \<Rightarrow> real list \<Rightarrow> nat \<Rightarrow> real list" where
  "windowed_frame signal h window i = map2 (*) (take (length window) (drop (i * h) signal)) window"

text \<open>
  The tensor handed to the engine for the chunk with index \<open>i\<close>: what the loop of
  \<^verbatim>\<open>run_onnx_inference\<close> passes to \<^const>\<open>chunk_input\<close>.
\<close>

definition engine_input :: "complex array3 \<Rightarrow> int \<Rightarrow> int \<Rightarrow> error + real array3" where
  "engine_input spectrogram chunk_size i =
     chunk_input (truncate_bins (np_map Re spectrogram) (dim1 spectrogram))
       (truncate_bins (np_map Im spectrogram) (dim1 spectrogram)) (dim0 spectrogram) chunk_size
       (i * chunk_size) (min ((i + 1) * chunk_size) (int (dim2 spectrogram)))"

text \<open>
  What one turn of the loop does for chunk \<open>i\<close>, with chunk size \<open>k\<close>: the engine
  gets a tensor \<open>x\<close> of \<open>k\<close> time steps that holds the real and imaginary parts of the
  spectrogram at the times \<open>i * k + t\<close> that exist and zero at the others; the mask \<open>m\<close>
  kept for the chunk has the chunk's own extent \<open>min k (T - i * k)\<close> and holds the
  first that many time steps of the engine's answer, as complex numbers.
\<close>

definition chunk_spec :: "(real array3 \<Rightarrow> real array3) \<Rightarrow> complex array3 \<Rightarrow> nat \<Rightarrow> nat \<Rightarrow>
    nat \<Rightarrow> complex array3 \<Rightarrow> bool" where
  "chunk_spec infer spectrogram Fo k i m \<longleftrightarrow>
     (\<exists>x. engine_input spectrogram (int k) (int i) = Inr x \<and>
          shape x = (4, min (dim1 spectrogram) 2048, k) \<and>
          (\<forall>p<4. \<forall>f<min (dim1 spectrogram) 2048. \<forall>t<k.
             item x p f t =
               (if i * k + t < dim2 spectrogram
                then (if even p then Re else Im)
                       (item spectrogram (if p < 2 then 0 else if dim0 spectrogram > 1 then 1 else 0)
                          f (i * k + t))
                else 0)) \<and>
          shape m = (2, Fo, min k (dim2 spectrogram - i * k)) \<and>
          (\<forall>c<2. \<forall>f<Fo. \<forall>t<min k (dim2 spectrogram - i * k).
             item m c f t = Complex (item (infer x) (2 * c) f t) (item (infer x) (2 * c + 1) f t)))"

text \<open>
  The transform of the periodic Hann window of length \<open>N\<close> at the angular frequency
  \<open>- a\<close>: the bins of a windowed sine are differences of two such sums.
\<close>

definition hann_sum :: "nat \<Rightarrow> real \<Rightarrow> complex" where
  "hann_sum N a = (\<Sum>m<N. complex_of_real (1 / 2 - cos (2 * pi * real m / real N) / 2) * cis (a * real m))"

text \<open>
  The common scale of the bins of the 440 Hz frame: with \<open>v = \<pi>/4096\<close> it is
  \<open>sin (293\<pi>/2205) \<cdot> sin\<^sup>2 v / v\<^sup>3\<close>, where \<open>293/2205 = 41 - 440 \<cdot> 4096 / 44100\<close>.
\<close>

definition peak_scale :: real where
  "peak_scale = sin (pi * 293 / 2205) * (sin (pi / 4096))\<^sup>2 / (pi / 4096) ^ 3"

section \<open>Framing: the number of frames\<close>

lemma frames_Inr:
  assumes "hop_length \<noteq> 0"
  shows "\<exists>fs. frames signal n_fft hop_length = Inr fs \<and>
               int (length fs) = max 0 ((int (length signal) - n_fft) div hop_length + 1)"
  using assms by (simp add: frames_def num_frames_def py_floordiv_def py_range_def)

text \<open>
  C3. For every signal, every frame size \<open>n_fft > 0\<close> and every hop \<open>hop_length > 0\<close>, the
  framing loop produces exactly \<open>floor((len(signal) - n_fft) / hop_length) + 1\<close> frames when
  the signal is at least one frame long, and no frame at all when it is shorter.
\<close>

theorem frames_count:
  assumes "0 < n_fft" and "0 < hop_length"
  shows "\<exists>fs. frames signal n_fft hop_length = Inr fs \<and>
           int (length fs) =
             (if n_fft \<le> int (length signal)
              then \<lfloor>(real (length signal) - real_of_int n_fft) / real_of_int hop_length\<rfloor> + 1
              else 0)"
proof -
  from assms obtain fs where fs: "frames signal n_fft hop_length = Inr fs"
    and len: "int (length fs) = max 0 ((int (length signal) - n_fft) div hop_length + 1)"
    using frames_Inr [of hop_length signal n_fft] by auto
  have fl: "\<lfloor>(real (length signal) - real_of_int n_fft) / real_of_int hop_length\<rfloor>
              = (int (length signal) - n_fft) div hop_length"
    using floor_divide_of_int_eq [of "int (length signal) - n_fft" hop_length, where ?'a = real]
    by simp
  show ?thesis
  proof (cases "n_fft \<le> int (length signal)")
    case True
    then have "0 \<le> (int (length signal) - n_fft) div hop_length"
      using assms by (simp add: pos_imp_zdiv_nonneg_iff)
    with fs len fl True show ?thesis by simp
  next
    case False
    then have "int (length signal) - n_fft < 0" by simp
    then have "(int (length signal) - n_fft) div hop_length < 0"
      using assms by (simp add: div_neg_pos_less0)
    with fs len False show ?thesis by simp
  qed
qed

theorem frames_count_witness:
  "(0::int) < 8 \<and> (0::int) < 2 \<and>
   (\<exists>fs. frames (replicate 16 (1::real)) 8 2 = Inr fs \<and> int (length fs) = 5)"
proof -
  have "\<lfloor>(real (length (replicate 16 (1::real))) - real_of_int 8) / real_of_int 2\<rfloor> = 4"
    by simp
  then show ?thesis
    using frames_count [of 8 2 "replicate 16 (1::real)"] by simp
qed

section \<open>The inverse transform undoes the forward transform\<close>

lemma cis_eq_1_imp:
  assumes "cis t = 1"
  shows "\<exists>k::int. t = 2 * pi * real_of_int k"
proof -
  from assms have "Re (cis t) = Re 1" by simp
  then have "cos t = 1" by simp
  then obtain k :: int where "t = 2 * pi * real_of_int k"
    using cos_one_2pi_int [of t] by (auto simp: mult.commute)
  then show ?thesis by blast
qed

lemma root_of_unity_neq_1:
  assumes "d \<noteq> 0" and "\<bar>d\<bar> < int n"
  shows "cis (2 * pi * real_of_int d / real n) \<noteq> 1"
proof
  assume "cis (2 * pi * real_of_int d / real n) = 1"
  then obtain k :: int where k: "2 * pi * real_of_int d / real n = 2 * pi * real_of_int k"
    using cis_eq_1_imp by blast
  from assms have n: "0 < n" by auto
  from k n have "2 * pi * real_of_int d = 2 * pi * (real_of_int k * real n)"
    by (simp add: field_simps)
  then have "real_of_int d = real_of_int k * real n" by simp
  then have "real_of_int d = real_of_int (k * int n)" by simp
  then have dk: "d = k * int n" by (simp only: of_int_eq_iff)
  with assms(1) have "k \<noteq> 0" by auto
  then have "\<bar>k\<bar> \<ge> 1" by simp
  then have "\<bar>k * int n\<bar> \<ge> int n" by (simp add: abs_mult mult_le_cancel_right1)
  with dk assms(2) show False by simp
qed

lemma sum_roots:
  assumes "\<bar>d\<bar> < int n"
  shows "(\<Sum>k<n. cis (2 * pi * real_of_int d * real k / real n)) = (if d = 0 then of_nat n else 0)"
proof (cases "d = 0")
  case True
  then show ?thesis by simp
next
  case False
  define r where "r = cis (2 * pi * real_of_int d / real n)"
  from assms have n: "0 < n" by auto
  have r1: "r \<noteq> 1" unfolding r_def using root_of_unity_neq_1 [OF False assms] .
  have pow: "r ^ k = cis (2 * pi * real_of_int d * real k / real n)" for k
    unfolding r_def by (simp add: DeMoivre mult_ac)
  have "r ^ n = cis (2 * pi * real_of_int d)"
    unfolding r_def using n by (simp add: DeMoivre)
  then have rn: "r ^ n = 1" by simp
  have "(\<Sum>k<n. r ^ k) = (r ^ n - 1) / (r - 1)"
    using geometric_sum [OF r1] .
  with rn have "(\<Sum>k<n. r ^ k) = 0" by simp
  with False show ?thesis by (simp add: pow)
qed

lemma idft_dft_nth:
  assumes "j < length a"
  shows "idft (dft a) ! j = a ! j"
proof -
  define n where "n = length a"
  from assms have n: "0 < n" "j < n" by (auto simp: n_def)
  have len: "length (dft a) = n" by (simp add: dft_def n_def)
  have "(\<Sum>k<n. dft a ! k * cis (2 * pi * real j * real k / real n))
      = (\<Sum>k<n. \<Sum>m<n. a ! m * cis (2 * pi * real_of_int (int j - int m) * real k / real n))"
  proof (rule sum.cong [OF refl])
    fix k assume "k \<in> {..<n}"
    then have k: "k < n" by simp
    have "dft a ! k * cis (2 * pi * real j * real k / real n)
        = (\<Sum>m<n. a ! m * cis (- (2 * pi * real m * real k / real n))) * cis (2 * pi * real j * real k / real n)"
      using k by (simp add: dft_def n_def)
    also have "\<dots> = (\<Sum>m<n. a ! m * (cis (- (2 * pi * real m * real k / real n)) * cis (2 * pi * real j * real k / real n)))"
      by (simp add: sum_distrib_right mult.assoc)
    also have "\<dots> = (\<Sum>m<n. a ! m * cis (2 * pi * real_of_int (int j - int m) * real k / real n))"
      by (rule sum.cong [OF refl]) (simp add: cis_mult field_simps)
    finally show "dft a ! k * cis (2 * pi * real j * real k / real n)
        = (\<Sum>m<n. a ! m * cis (2 * pi * real_of_int (int j - int m) * real k / real n))" .
  qed
  also have "\<dots> = (\<Sum>m<n. a ! m * (\<Sum>k<n. cis (2 * pi * real_of_int (int j - int m) * real k / real n)))"
    by (subst sum.swap) (simp add: sum_distrib_left)
  also have "\<dots> = (\<Sum>m<n. a ! m * (if int j - int m = 0 then of_nat n else 0))"
  proof (rule sum.cong [OF refl])
    fix m assume "m \<in> {..<n}"
    then have "\<bar>int j - int m\<bar> < int n" using n by auto
    then show "a ! m * (\<Sum>k<n. cis (2 * pi * real_of_int (int j - int m) * real k / real n))
             = a ! m * (if int j - int m = 0 then of_nat n else 0)"
      by (simp only: sum_roots)
  qed
  also have "\<dots> = (\<Sum>m<n. if m = j then a ! j * of_nat n else 0)"
    by (rule sum.cong [OF refl]) auto
  also have "\<dots> = a ! j * of_nat n"
    using n by simp
  finally have "(\<Sum>k<n. dft a ! k * cis (2 * pi * real j * real k / real n)) = a ! j * of_nat n" .
  then show ?thesis
    using n by (simp add: idft_def len)
qed

lemma length_dft [simp]: "length (dft a) = length a"
  by (simp add: dft_def)

lemma length_idft [simp]: "length (idft a) = length a"
  by (simp add: idft_def)

lemma idft_dft: "idft (dft a) = a"
  by (rule nth_equalityI) (simp_all add: idft_dft_nth)

section \<open>Overlap-add: what the two accumulators hold\<close>

lemma slice_bound_nat: "a \<le> n \<Longrightarrow> slice_bound n (int a) = a"
  by (simp add: slice_bound_def)

lemma py_slice_in_range:
  assumes "a + k \<le> length xs"
  shows "py_slice xs (int a) (int a + int k) = take k (drop a xs)"
proof -
  have "int a + int k = int (a + k)" by simp
  then show ?thesis
    using assms by (simp only: py_slice_def Let_def slice_bound_nat) (simp add: slice_bound_nat)
qed

lemma slice_add_in_range:
  assumes "a + length v \<le> length out"
  shows "slice_add out (int a) (int a + int (length v)) v
           = Inr (take a out @ map2 (+) (take (length v) (drop a out)) v @ drop (a + length v) out)"
proof -
  have e: "int a + int (length v) = int (a + length v)" by simp
  have b1: "slice_bound (length out) (int a) = a"
    using assms by (simp add: slice_bound_nat)
  have b2: "slice_bound (length out) (int a + int (length v)) = a + length v"
    unfolding e using assms by (rule slice_bound_nat)
  have len: "length (take (length v) (drop a out)) = length v"
    using assms by simp
  show ?thesis
    unfolding slice_add_def Let_def b1 b2 using len
    by (simp add: np_binop_def)
qed

lemma length_add_at: "a + length v \<le> length out \<Longrightarrow> length (add_at a v out) = length out"
  by (simp add: add_at_def)

lemma nth_add_at:
  assumes "a + length v \<le> length out" and "j < length out"
  shows "add_at a v out ! j = out ! j + (if a \<le> j \<and> j < a + length v then v ! (j - a) else 0)"
proof -
  consider "j < a" | "a \<le> j" "j < a + length v" | "a + length v \<le> j" by linarith
  then show ?thesis
  proof cases
    case 1
    then show ?thesis using assms by (simp add: add_at_def nth_append)
  next
    case 2
    then have "j - a < length v" by simp
    with 2 assms show ?thesis by (simp add: add_at_def nth_append)
  next
    case 3
    then have "\<not> j < a" "\<not> j - a < length v" by simp_all
    moreover have "a + length v + (j - a - length v) = j" using 3 by simp
    ultimately show ?thesis using assms 3 by (simp add: add_at_def nth_append)
  qed
qed


lemma np_ifft_dft: "a \<noteq> [] \<Longrightarrow> np_ifft (dft a) = Inr a"
  by (simp add: np_ifft_def idft_dft)

lemma map_Re_of_real: "map Re (map complex_of_real u) = u"
  by (simp add: comp_def)

lemma length_windowed_frame:
  "i * h + length window \<le> length signal \<Longrightarrow> length (windowed_frame signal h window i) = length window"
  by (simp add: windowed_frame_def)

lemma stft_loop_ok:
  assumes "window \<noteq> []" and "\<forall>i\<in>set ks. i * h + length window \<le> length signal"
  shows "stft_loop signal (int (length window)) (int h) window (map int ks)
           = Inr (map (\<lambda>i. dft (map complex_of_real (windowed_frame signal h window i))) ks)"
  using assms(2)
proof (induction ks)
  case Nil
  show ?case by simp
next
  case (Cons i ks)
  then have r: "i * h + length window \<le> length signal" by simp
  have e: "int i * int h = int (i * h)" by simp
  have sl: "py_slice signal (int i * int h) (int i * int h + int (length window))
              = take (length window) (drop (i * h) signal)"
    unfolding e using r by (rule py_slice_in_range)
  have len: "length (take (length window) (drop (i * h) signal)) = length window"
    using r by simp
  have w: "np_binop (*) (take (length window) (drop (i * h) signal)) window
             = Inr (windowed_frame signal h window i)"
    using len by (simp add: np_binop_def windowed_frame_def)
  have f: "np_fft (map complex_of_real (windowed_frame signal h window i))
             = Inr (dft (map complex_of_real (windowed_frame signal h window i)))"
    using assms(1) r by (simp add: np_fft_def length_windowed_frame)
  from Cons have ih: "stft_loop signal (int (length window)) (int h) window (map int ks)
           = Inr (map (\<lambda>i. dft (map complex_of_real (windowed_frame signal h window i))) ks)"
    by simp
  show ?case
    by (simp only: list.map stft_loop.simps Let_def sl w f ih sum.case)
qed

lemma istft_step:
  assumes "window \<noteq> []" and "i < length S" and "S ! i = dft (map complex_of_real u)"
    and "length u = length window" and "i * h + length window \<le> length out"
    and "length ws = length out"
  shows "istft_loop S (int (length window)) (int h) window (int i # rest) (out, ws)
           = istft_loop S (int (length window)) (int h) window rest
               (add_at (i * h) (map2 (*) u window) out, add_at (i * h) window ws)"
proof -
  have e: "int i * int h = int (i * h)" by simp
  have u: "u \<noteq> []" using assms(1,4) by auto
  have c: "\<not> (int i < 0 \<or> int (length S) \<le> int i)" using assms(2) by simp
  have i: "np_ifft (S ! nat (int i)) = Inr (map complex_of_real u)"
    using u by (simp add: assms(3) np_ifft_dft)
  have m: "np_binop (*) u window = Inr (map2 (*) u window)"
    using assms(4) by (simp add: np_binop_def)
  have lv: "length (map2 (*) u window) = length window" using assms(4) by simp
  have a1: "slice_add out (int i * int h) (int i * int h + int (length window)) (map2 (*) u window)
              = Inr (add_at (i * h) (map2 (*) u window) out)"
    unfolding e add_at_def
    using slice_add_in_range [of "i * h" "map2 (*) u window" out] assms(5) lv by simp
  have a2: "slice_add ws (int i * int h) (int i * int h + int (length window)) window
              = Inr (add_at (i * h) window ws)"
    unfolding e add_at_def
    using slice_add_in_range [of "i * h" window ws] assms(5,6) by simp
  show ?thesis
    by (simp only: istft_loop.simps c if_False i sum.case Let_def map_Re_of_real m a1 a2)
qed


lemma istft_loop_ok:
  assumes "window \<noteq> []"
    and "\<forall>i\<in>set ks. i < length S \<and> S ! i = dft (map complex_of_real (u i)) \<and>
           length (u i) = length window \<and> i * h + length window \<le> length out"
    and "length ws = length out"
  shows "\<exists>out' ws'.
           istft_loop S (int (length window)) (int h) window (map int ks) (out, ws) = Inr (out', ws') \<and>
           length out' = length out \<and> length ws' = length out \<and>
           (\<forall>j<length out. out' ! j = out ! j +
              (\<Sum>i\<leftarrow>ks. if i * h \<le> j \<and> j < i * h + length window
                        then u i ! (j - i * h) * window ! (j - i * h) else 0)) \<and>
           (\<forall>j<length out. ws' ! j = ws ! j +
              (\<Sum>i\<leftarrow>ks. if i * h \<le> j \<and> j < i * h + length window
                        then window ! (j - i * h) else 0))"
  using assms(2,3)
proof (induction ks arbitrary: out ws)
  case Nil
  then show ?case by simp
next
  case (Cons i ks)
  define v where "v = map2 (*) (u i) window"
  define out1 where "out1 = add_at (i * h) v out"
  define ws1 where "ws1 = add_at (i * h) window ws"
  from Cons.prems have i: "i < length S" "S ! i = dft (map complex_of_real (u i))"
    "length (u i) = length window" "i * h + length window \<le> length out"
    and ws: "length ws = length out" by simp_all
  have lv: "length v = length window" using i(3) by (simp add: v_def)
  have l1: "length out1 = length out" unfolding out1_def using i(4) lv by (simp add: length_add_at)
  have l2: "length ws1 = length out" unfolding ws1_def using i(4) ws by (simp add: length_add_at)
  have step: "istft_loop S (int (length window)) (int h) window (map int (i # ks)) (out, ws)
              = istft_loop S (int (length window)) (int h) window (map int ks) (out1, ws1)"
    unfolding out1_def ws1_def v_def list.map
    using assms(1) i ws by (rule istft_step)
  have pre: "\<forall>k\<in>set ks. k < length S \<and> S ! k = dft (map complex_of_real (u k)) \<and>
           length (u k) = length window \<and> k * h + length window \<le> length out1"
    using Cons.prems(1) l1 by simp
  have l21: "length ws1 = length out1" using l1 l2 by simp
  from Cons.IH [OF pre l21, unfolded l1] obtain out' ws' where
    r: "istft_loop S (int (length window)) (int h) window (map int ks) (out1, ws1) = Inr (out', ws')"
    and lo: "length out' = length out" and lw: "length ws' = length out"
    and o: "\<forall>j<length out. out' ! j = out1 ! j +
              (\<Sum>k\<leftarrow>ks. if k * h \<le> j \<and> j < k * h + length window
                        then u k ! (j - k * h) * window ! (j - k * h) else 0)"
    and w: "\<forall>j<length out. ws' ! j = ws1 ! j +
              (\<Sum>k\<leftarrow>ks. if k * h \<le> j \<and> j < k * h + length window
                        then window ! (j - k * h) else 0)"
    by blast
  have o1: "out1 ! j = out ! j + (if i * h \<le> j \<and> j < i * h + length window
                        then u i ! (j - i * h) * window ! (j - i * h) else 0)"
    if "j < length out" for j
  proof -
    have "out1 ! j = out ! j + (if i * h \<le> j \<and> j < i * h + length v then v ! (j - i * h) else 0)"
      unfolding out1_def using i(4) lv that by (simp add: nth_add_at)
    moreover have "v ! (j - i * h) = u i ! (j - i * h) * window ! (j - i * h)"
      if "i * h \<le> j" "j < i * h + length window"
      using that i(3) by (simp add: v_def)
    ultimately show ?thesis using lv by simp
  qed
  have w1: "ws1 ! j = ws ! j + (if i * h \<le> j \<and> j < i * h + length window
                        then window ! (j - i * h) else 0)"
    if "j < length out" for j
    unfolding ws1_def using i(4) ws that by (simp add: nth_add_at)
  have fo: "out' ! j = out ! j +
              (\<Sum>k\<leftarrow>i # ks. if k * h \<le> j \<and> j < k * h + length window
                        then u k ! (j - k * h) * window ! (j - k * h) else 0)"
    if "j < length out" for j
    using o [rule_format, OF that] o1 [OF that] by (simp only: list.map sum_list.Cons add.assoc)
  have fw: "ws' ! j = ws ! j +
              (\<Sum>k\<leftarrow>i # ks. if k * h \<le> j \<and> j < k * h + length window
                        then window ! (j - k * h) else 0)"
    if "j < length out" for j
    using w [rule_format, OF that] w1 [OF that] by (simp only: list.map sum_list.Cons add.assoc)
  show ?case
    unfolding step r using lo lw fo fw by blast
qed


lemma nth_windowed_frame:
  assumes "i * h + length window \<le> length signal" and "k < length window"
  shows "windowed_frame signal h window i ! k = signal ! (i * h + k) * window ! k"
  using assms by (simp add: windowed_frame_def)

lemma frame_fits:
  assumes "0 < h" and "length window \<le> length signal"
    and "i < (length signal - length window) div h + 1"
  shows "i * h + length window \<le> length signal"
    and "i * h + length window \<le> (length signal - length window) div h * h + length window"
proof -
  from assms(3) have "i \<le> (length signal - length window) div h" by simp
  then have a: "i * h \<le> (length signal - length window) div h * h" by simp
  also have "\<dots> \<le> length signal - length window" by simp
  finally show "i * h + length window \<le> length signal" using assms(2) by simp
  from a show "i * h + length window \<le> (length signal - length window) div h * h + length window"
    by simp
qed

lemma overlap_add_ok:
  assumes w: "window \<noteq> []" and h: "0 < h" and len: "length window \<le> length signal"
  shows "\<exists>output window_sum.
     overlap_add signal (int (length window)) (int h) window = Inr (output, window_sum) \<and>
     length output = (length signal - length window) div h * h + length window \<and>
     length window_sum = (length signal - length window) div h * h + length window \<and>
     (\<forall>j < (length signal - length window) div h * h + length window.
        output ! j = (\<Sum>i\<leftarrow>[0..<(length signal - length window) div h + 1].
                        if i * h \<le> j \<and> j < i * h + length window
                        then signal ! j * window ! (j - i * h) * window ! (j - i * h) else 0)) \<and>
     (\<forall>j < (length signal - length window) div h * h + length window.
        window_sum ! j = (\<Sum>i\<leftarrow>[0..<(length signal - length window) div h + 1].
                        if i * h \<le> j \<and> j < i * h + length window
                        then window ! (j - i * h) else 0))"
proof -
  define q where "q = (length signal - length window) div h"
  define L where "L = q * h + length window"
  define S where "S = map (\<lambda>i. dft (map complex_of_real (windowed_frame signal h window i))) [0..<q + 1]"
  have nf: "num_frames signal (int (length window)) (int h) = Inr (int (q + 1))"
  proof -
    have "int (length signal) - int (length window) = int (length signal - length window)"
      using len by simp
    then have "(int (length signal) - int (length window)) div int h = int q"
      by (simp only: q_def zdiv_int)
    then show ?thesis using h by (simp add: num_frames_def py_floordiv_def)
  qed
  have rg: "py_range (int (q + 1)) = map int [0..<q + 1]"
    by (simp only: py_range_def nat_int)
  have fits: "\<forall>i\<in>set [0..<q + 1]. i * h + length window \<le> length signal"
    using frame_fits(1) [OF h len] by (simp add: q_def)
  have st: "stft_loop signal (int (length window)) (int h) window (map int [0..<q + 1]) = Inr S"
    unfolding S_def using w fits by (rule stft_loop_ok)
  have "(int (q + 1) - 1) * int h + int (length window) = int L"
    by (simp add: L_def)
  then have z: "np_zeros ((int (q + 1) - 1) * int h + int (length window)) = Inr (replicate L 0)"
    by (simp only: np_zeros_def nat_int) simp
  have pre: "\<forall>i\<in>set [0..<q + 1]. i < length S \<and>
       S ! i = dft (map complex_of_real (windowed_frame signal h window i)) \<and>
       length (windowed_frame signal h window i) = length window \<and>
       i * h + length window \<le> length (replicate L (0::real))"
  proof
    fix i assume "i \<in> set [0..<q + 1]"
    then have i: "i < q + 1" by auto
    then have a: "i < length S" by (simp add: S_def)
    have b: "S ! i = dft (map complex_of_real (windowed_frame signal h window i))"
      unfolding S_def using i by (simp del: upt_Suc)
    have f: "i * h + length window \<le> length signal"
      using frame_fits(1) [OF h len] i by (simp add: q_def)
    have c: "length (windowed_frame signal h window i) = length window"
      using f by (rule length_windowed_frame)
    have d: "i * h + length window \<le> length (replicate L (0::real))"
      using frame_fits(2) [OF h len] i by (simp add: q_def L_def)
    from a b c d show "i < length S \<and>
       S ! i = dft (map complex_of_real (windowed_frame signal h window i)) \<and>
       length (windowed_frame signal h window i) = length window \<and>
       i * h + length window \<le> length (replicate L (0::real))" by blast
  qed
  from istft_loop_ok [OF w pre refl] obtain out' ws' where
    r: "istft_loop S (int (length window)) (int h) window (map int [0..<q + 1])
          (replicate L 0, replicate L 0) = Inr (out', ws')"
    and lo: "length out' = L" and lw: "length ws' = L"
    and o: "\<forall>j<L. out' ! j = replicate L 0 ! j +
              (\<Sum>i\<leftarrow>[0..<q + 1]. if i * h \<le> j \<and> j < i * h + length window
                 then windowed_frame signal h window i ! (j - i * h) * window ! (j - i * h) else 0)"
    and ww: "\<forall>j<L. ws' ! j = replicate L 0 ! j +
              (\<Sum>i\<leftarrow>[0..<q + 1]. if i * h \<le> j \<and> j < i * h + length window
                 then window ! (j - i * h) else 0)"
    by (simp only: length_replicate) blast
  have ov: "overlap_add signal (int (length window)) (int h) window = Inr (out', ws')"
    by (simp only: overlap_add_def nf sum.case rg st z r)
  have fo: "out' ! j = (\<Sum>i\<leftarrow>[0..<q + 1]. if i * h \<le> j \<and> j < i * h + length window
                 then signal ! j * window ! (j - i * h) * window ! (j - i * h) else 0)"
    if j: "j < L" for j
  proof -
    have "(\<Sum>i\<leftarrow>[0..<q + 1]. if i * h \<le> j \<and> j < i * h + length window
                 then windowed_frame signal h window i ! (j - i * h) * window ! (j - i * h) else 0)
        = (\<Sum>i\<leftarrow>[0..<q + 1]. if i * h \<le> j \<and> j < i * h + length window
                 then signal ! j * window ! (j - i * h) * window ! (j - i * h) else 0)"
    proof (rule arg_cong [where f = sum_list], rule map_cong [OF refl])
      fix i assume "i \<in> set [0..<q + 1]"
      then have f: "i * h + length window \<le> length signal" using fits by blast
      show "(if i * h \<le> j \<and> j < i * h + length window
                 then windowed_frame signal h window i ! (j - i * h) * window ! (j - i * h) else 0)
          = (if i * h \<le> j \<and> j < i * h + length window
                 then signal ! j * window ! (j - i * h) * window ! (j - i * h) else 0)"
      proof (cases "i * h \<le> j \<and> j < i * h + length window")
        case True
        then have "j - i * h < length window" and "i * h + (j - i * h) = j" by auto
        with nth_windowed_frame [OF f, of "j - i * h"]
        have "windowed_frame signal h window i ! (j - i * h) = signal ! j * window ! (j - i * h)"
          by simp
        then show ?thesis by (simp only:)
      next
        case False
        show ?thesis by (simp only: False if_False)
      qed
    qed
    with o j show ?thesis by simp
  qed
  have fw: "ws' ! j = (\<Sum>i\<leftarrow>[0..<q + 1]. if i * h \<le> j \<and> j < i * h + length window
                 then window ! (j - i * h) else 0)"
    if j: "j < L" for j
    using ww j by simp
  show ?thesis
    using ov lo lw fo fw unfolding L_def q_def by blast
qed

section \<open>The script's own input: 16 ones, frame size 8, hop 2\<close>

lemma cos_sevenths: "cos (pi * 2 / 7) + cos (pi * 4 / 7) + cos (pi * 6 / 7) = - 1 / 2"
proof -
  have "(\<Sum>k<7. cis (2 * pi * real_of_int 1 * real k / real 7)) = 0"
    using sum_roots [of 1 7] by simp
  then have "Re (\<Sum>k<7. cis (2 * pi * real_of_int 1 * real k / real 7)) = 0"
    by simp
  then have s: "1 + cos (pi * 2 / 7) + cos (pi * 4 / 7) + cos (pi * 6 / 7)
             + cos (pi * 8 / 7) + cos (pi * 10 / 7) + cos (pi * 12 / 7) = 0"
    by (simp add: eval_nat_numeral mult.commute)
  have m: "cos (2 * pi - x) = cos x" for x :: real
    using cos_diff [of "2 * pi" x] by simp
  have "pi * 8 / 7 = 2 * pi - pi * 6 / 7" "pi * 10 / 7 = 2 * pi - pi * 4 / 7"
       "pi * 12 / 7 = 2 * pi - pi * 2 / 7"
    by (simp_all add: field_simps)
  then have "cos (pi * 8 / 7) = cos (pi * 6 / 7)" "cos (pi * 10 / 7) = cos (pi * 4 / 7)"
       "cos (pi * 12 / 7) = cos (pi * 2 / 7)"
    by (simp_all only: m)
  with s show ?thesis by simp
qed

lemma cos_sq_sevenths:
  "(cos (pi * 2 / 7))\<^sup>2 + (cos (pi * 4 / 7))\<^sup>2 + (cos (pi * 6 / 7))\<^sup>2 = 5 / 4"
proof -
  have d: "(cos x)\<^sup>2 = (1 + cos (2 * x)) / 2" for x :: real
    by (simp add: cos_double_cos)
  have m: "cos (2 * pi - x) = cos x" for x :: real
    using cos_diff [of "2 * pi" x] by simp
  have "2 * (pi * 4 / 7) = 2 * pi - pi * 6 / 7" "2 * (pi * 6 / 7) = 2 * pi - pi * 2 / 7"
    by (simp_all add: field_simps)
  then have e: "cos (2 * (pi * 4 / 7)) = cos (pi * 6 / 7)" "cos (2 * (pi * 6 / 7)) = cos (pi * 2 / 7)"
    by (simp_all only: m)
  have "2 * (pi * 2 / 7) = pi * 4 / 7" by simp
  then have f: "cos (2 * (pi * 2 / 7)) = cos (pi * 4 / 7)" by (simp only:)
  show ?thesis
    unfolding d e f using cos_sevenths by (simp add: field_simps)
qed

lemma hanning_8:
  "hanning 8 = [0, (1 - cos (pi * 2 / 7)) / 2, (1 - cos (pi * 4 / 7)) / 2, (1 - cos (pi * 6 / 7)) / 2,
                (1 - cos (pi * 6 / 7)) / 2, (1 - cos (pi * 4 / 7)) / 2, (1 - cos (pi * 2 / 7)) / 2, 0]"
proof -
  have c: "cos (pi * a / 7) = - cos (pi * (7 - a) / 7)" for a :: real
  proof -
    have e: "pi * (7 - a) / 7 = pi - pi * a / 7" by (simp add: field_simps)
    show ?thesis unfolding e by (simp only: cos_pi_minus minus_minus)
  qed
  have "cos (pi * 5 / 7) = - cos (pi * 2 / 7)" using c [of 5] by simp
  moreover have "cos (pi * 3 / 7) = - cos (pi * 4 / 7)" using c [of 3] by simp
  moreover have "cos (pi / 7) = - cos (pi * 6 / 7)" using c [of 1] by simp
  ultimately show ?thesis
    by (simp add: hanning_def upt_rec)
qed


lemma upt_5: "[0..<5] = [0, 1, 2, 3, 4]"
  by (simp add: upt_rec)

lemma overlap_add_ones:
  fixes a b c :: real
  defines "W \<equiv> [0, a, b, c, c, b, a, 0]"
  shows "\<exists>output window_sum.
     overlap_add (replicate 16 1) 8 2 W = Inr (output, window_sum) \<and>
     length output = 16 \<and> length window_sum = 16 \<and>
     (\<forall>j. 5 \<le> j \<and> j \<le> 10 \<longrightarrow>
        output ! j = a * a + b * b + c * c \<and> window_sum ! j = a + b + c)"
proof -
  have lW: "length W = 8" and nW: "W \<noteq> []" by (simp_all add: W_def)
  have q: "(length (replicate 16 (1::real)) - length W) div 2 = 4"
    by (simp add: lW)
  from overlap_add_ok [of W 2 "replicate 16 1", unfolded q] nW lW
  obtain outp wsum where
    ov: "overlap_add (replicate 16 1) 8 2 W = Inr (outp, wsum)"
    and lo: "length outp = 16" and lw: "length wsum = 16"
    and o: "\<forall>j<16. outp ! j = (\<Sum>i\<leftarrow>[0..<5]. if i * 2 \<le> j \<and> j < i * 2 + 8
                        then replicate 16 1 ! j * W ! (j - i * 2) * W ! (j - i * 2) else 0)"
    and w: "\<forall>j<16. wsum ! j = (\<Sum>i\<leftarrow>[0..<5]. if i * 2 \<le> j \<and> j < i * 2 + 8
                        then W ! (j - i * 2) else 0)"
    by auto
  have "outp ! j = a * a + b * b + c * c \<and> wsum ! j = a + b + c"
    if "5 \<le> j" "j \<le> 10" for j
  proof -
    from that have "j = 5 \<or> j = 6 \<or> j = 7 \<or> j = 8 \<or> j = 9 \<or> j = 10" by auto
    moreover have "outp ! 5 = a * a + b * b + c * c" "wsum ! 5 = a + b + c"
      using o [rule_format, of 5] w [rule_format, of 5] by (simp_all add: upt_5 W_def)
    moreover have "outp ! 6 = a * a + b * b + c * c" "wsum ! 6 = a + b + c"
      using o [rule_format, of 6] w [rule_format, of 6] by (simp_all add: upt_5 W_def)
    moreover have "outp ! 7 = a * a + b * b + c * c" "wsum ! 7 = a + b + c"
      using o [rule_format, of 7] w [rule_format, of 7] by (simp_all add: upt_5 W_def)
    moreover have "outp ! 8 = a * a + b * b + c * c" "wsum ! 8 = a + b + c"
      using o [rule_format, of 8] w [rule_format, of 8] by (simp_all add: upt_5 W_def)
    moreover have "outp ! 9 = a * a + b * b + c * c" "wsum ! 9 = a + b + c"
      using o [rule_format, of 9] w [rule_format, of 9] by (simp_all add: upt_5 W_def)
    moreover have "outp ! 10 = a * a + b * b + c * c" "wsum ! 10 = a + b + c"
      using o [rule_format, of 10] w [rule_format, of 10] by (simp_all add: upt_5 W_def)
    ultimately show ?thesis by blast
  qed
  with ov lo lw show ?thesis by blast
qed


lemma hann8_sum:
  "(1 - cos (pi * 2 / 7)) / 2 + (1 - cos (pi * 4 / 7)) / 2 + (1 - cos (pi * 6 / 7)) / 2 = 7 / 4"
  using cos_sevenths by (simp add: field_simps)

lemma hann8_energy:
  "(1 - cos (pi * 2 / 7)) / 2 * ((1 - cos (pi * 2 / 7)) / 2)
   + (1 - cos (pi * 4 / 7)) / 2 * ((1 - cos (pi * 4 / 7)) / 2)
   + (1 - cos (pi * 6 / 7)) / 2 * ((1 - cos (pi * 6 / 7)) / 2) = 21 / 16"
  using cos_sevenths cos_sq_sevenths by (simp add: field_simps power2_eq_square)

text \<open>
  C1. The claim: in the overlap-add reconstruction the normalisation accumulator receives
  the squared window at each frame offset. In \<^verbatim>\<open>manual_stft_istft\<close> the accumulator
  \<^verbatim>\<open>window_sum\<close> receives the window itself (lemma \<open>overlap_add_ok\<close>), although the
  frames are windowed twice. On the script's input (16 ones, \<open>n_fft = 8\<close>,
  \<open>hop_length = 2\<close>) the accumulator holds \<open>7/4\<close> at index 6, the sum of the four window
  coefficients that overlap there, while their squares sum to \<open>21/16\<close>.
\<close>

theorem overlap_add_ones_window_sum:
  "\<exists>output window_sum.
     overlap_add (replicate 16 1) 8 2 (hanning 8) = Inr (output, window_sum) \<and>
     window_sum ! 6 = hanning 8 ! 0 + hanning 8 ! 2 + hanning 8 ! 4 + hanning 8 ! 6 \<and>
     window_sum ! 6 = 7 / 4 \<and>
     (hanning 8 ! 0)\<^sup>2 + (hanning 8 ! 2)\<^sup>2 + (hanning 8 ! 4)\<^sup>2 + (hanning 8 ! 6)\<^sup>2 = 21 / 16"
proof -
  from overlap_add_ones [of "(1 - cos (pi * 2 / 7)) / 2" "(1 - cos (pi * 4 / 7)) / 2"
      "(1 - cos (pi * 6 / 7)) / 2"]
  obtain outp wsum where
    ov: "overlap_add (replicate 16 1) 8 2 (hanning 8) = Inr (outp, wsum)"
    and w: "wsum ! 6 = (1 - cos (pi * 2 / 7)) / 2 + (1 - cos (pi * 4 / 7)) / 2
                       + (1 - cos (pi * 6 / 7)) / 2"
    unfolding hanning_8 [symmetric] by force
  have 1: "wsum ! 6 = hanning 8 ! 0 + hanning 8 ! 2 + hanning 8 ! 4 + hanning 8 ! 6"
    unfolding w hanning_8 by simp
  have 2: "wsum ! 6 = 7 / 4" unfolding w by (rule hann8_sum)
  have 3: "(hanning 8 ! 0)\<^sup>2 + (hanning 8 ! 2)\<^sup>2 + (hanning 8 ! 4)\<^sup>2 + (hanning 8 ! 6)\<^sup>2 = 21 / 16"
    unfolding hanning_8 using hann8_energy by (simp add: power2_eq_square)
  from ov 1 2 3 show ?thesis by blast
qed

text \<open>
  C2. The claim: for 16 ones, frame size 8, hop 2 and a Hann window the reconstruction is
  1.0 within \<^verbatim>\<open>1e-5\<close> at the indices 4 to 11. \<^verbatim>\<open>manual_stft_istft\<close> returns
  \<open>3/4\<close> at each of the indices 5 to 10 (in exact arithmetic): the accumulated
  \<open>frame * window * window\<close> is \<open>21/16\<close> there and it is divided by the accumulated
  window \<open>7/4\<close>.
\<close>

theorem manual_stft_istft_ones:
  "\<exists>reconstructed.
     manual_stft_istft (replicate 16 1) 8 2 = Inr reconstructed \<and> length reconstructed = 16 \<and>
     reconstructed ! 5 = 3 / 4 \<and> reconstructed ! 6 = 3 / 4 \<and> reconstructed ! 7 = 3 / 4 \<and>
     reconstructed ! 8 = 3 / 4 \<and> reconstructed ! 9 = 3 / 4 \<and> reconstructed ! 10 = 3 / 4"
proof -
  from overlap_add_ones [of "(1 - cos (pi * 2 / 7)) / 2" "(1 - cos (pi * 4 / 7)) / 2"
      "(1 - cos (pi * 6 / 7)) / 2"]
  obtain outp wsum where
    ov: "overlap_add (replicate 16 1) 8 2 (hanning 8) = Inr (outp, wsum)"
    and lo: "length outp = 16" and lw: "length wsum = 16"
    and v: "\<forall>j. 5 \<le> j \<and> j \<le> 10 \<longrightarrow> outp ! j = 21 / 16 \<and> wsum ! j = 7 / 4"
    unfolding hanning_8 [symmetric] hann8_sum hann8_energy by blast
  define r where "r = map2 (/) outp (map (\<lambda>s. if s > 1 / 10 ^ 8 then s else 1) wsum)"
  have n: "normalize outp wsum = Inr r"
    using lo lw by (simp add: normalize_def np_binop_def r_def)
  have m: "manual_stft_istft (replicate 16 1) 8 2 = Inr r"
    by (simp only: manual_stft_istft_def ov sum.case prod.case n)
  have lr: "length r = 16" using lo lw by (simp add: r_def)
  have "r ! j = 3 / 4" if "5 \<le> j" "j \<le> 10" for j
  proof -
    from that v have e: "outp ! j = 21 / 16" "wsum ! j = 7 / 4" by blast+
    from that lo lw have "j < length outp" "j < length wsum" by auto
    then have "r ! j = outp ! j / (if wsum ! j > 1 / 10 ^ 8 then wsum ! j else 1)"
      by (simp add: r_def)
    then show ?thesis unfolding e by simp
  qed
  then have "r ! 5 = 3 / 4" "r ! 6 = 3 / 4" "r ! 7 = 3 / 4" "r ! 8 = 3 / 4" "r ! 9 = 3 / 4"
    "r ! 10 = 3 / 4" by simp_all
  with m lr show ?thesis by blast
qed

section \<open>Single frames: round trip and real bins\<close>

lemma nth_dft:
  "k < length a \<Longrightarrow>
     dft a ! k = (\<Sum>m<length a. a ! m * cis (- (2 * pi * real m * real k / real (length a))))"
  by (simp add: dft_def)

lemma cis_mirror:
  assumes "k \<le> n" and "0 < n"
  shows "cis (- (2 * pi * real m * real (n - k) / real n)) = cnj (cis (- (2 * pi * real m * real k / real n)))"
proof -
  have "- (2 * pi * real m * real (n - k) / real n)
          = 2 * pi * real m * real k / real n + 2 * pi * real_of_int (- int m)"
    using assms by (simp add: of_nat_diff field_simps)
  then have "cis (- (2 * pi * real m * real (n - k) / real n))
          = cis (2 * pi * real m * real k / real n) * cis (2 * pi * real_of_int (- int m))"
    by (simp only: cis_mult)
  also have "cis (2 * pi * real_of_int (- int m)) = 1"
    by (rule cis_multiple_2pi) simp
  finally show ?thesis by (simp add: cis_cnj)
qed

lemma dft_real_mirror:
  assumes "k < length x" and "0 < k"
  shows "dft (map complex_of_real x) ! (length x - k) = cnj (dft (map complex_of_real x) ! k)"
proof -
  define n where "n = length x"
  have n: "0 < n" "k \<le> n" "n - k < n" "k < n" using assms by (auto simp: n_def)
  have xne: "x \<noteq> []" using assms(1) by (cases x) simp_all
  have "dft (map complex_of_real x) ! (n - k)
      = (\<Sum>m<n. complex_of_real (x ! m) * cis (- (2 * pi * real m * real (n - k) / real n)))"
    using n(3) by (simp add: nth_dft n_def [symmetric])
  also have "\<dots> = (\<Sum>m<n. complex_of_real (x ! m) * cnj (cis (- (2 * pi * real m * real k / real n))))"
    by (simp only: cis_mirror [OF n(2) n(1)])
  also have "\<dots> = cnj (\<Sum>m<n. complex_of_real (x ! m) * cis (- (2 * pi * real m * real k / real n)))"
    by simp
  also have "\<dots> = cnj (dft (map complex_of_real x) ! k)"
    using n(4) by (simp add: nth_dft n_def [symmetric])
  finally show ?thesis by (simp only: n_def)
qed

lemma hermitian_extend_dft:
  "hermitian_extend (length x) (take (length x div 2 + 1) (dft (map complex_of_real x)))
     = dft (map complex_of_real x)"
proof (rule nth_equalityI)
  show "length (hermitian_extend (length x) (take (length x div 2 + 1) (dft (map complex_of_real x))))
          = length (dft (map complex_of_real x))"
    by (simp add: hermitian_extend_def)
next
  fix k
  assume "k < length (hermitian_extend (length x) (take (length x div 2 + 1) (dft (map complex_of_real x))))"
  then have k: "k < length x" by (simp add: hermitian_extend_def)
  show "hermitian_extend (length x) (take (length x div 2 + 1) (dft (map complex_of_real x))) ! k
          = dft (map complex_of_real x) ! k"
  proof (cases "k \<le> length x div 2")
    case True
    then show ?thesis using k by (simp add: hermitian_extend_def)
  next
    case False
    then have a: "length x - k < length x div 2 + 1" "0 < k" by linarith+
    have "dft (map complex_of_real x) ! (length x - k) = cnj (dft (map complex_of_real x) ! k)"
      using k a(2) by (rule dft_real_mirror)
    then show ?thesis using k False a(1) by (simp add: hermitian_extend_def)
  qed
qed

lemma fft_ifft_real_ok: "x \<noteq> [] \<Longrightarrow> fft_ifft_real x = Inr x"
  by (simp add: fft_ifft_real_def np_fft_def np_ifft_def idft_dft comp_def)

lemma rfft_irfft_even:
  assumes "x \<noteq> []" and "even (length x)"
  shows "rfft_irfft x = Inr x"
proof -
  from assms(2) obtain b where b: "length x = 2 * b" by (auto elim: evenE)
  with assms(1) have "b \<noteq> 0" by (cases x) simp_all
  with b have n2: "2 \<le> length x" by simp
  have r: "np_rfft x = Inr (take (length x div 2 + 1) (dft (map complex_of_real x)))"
    using assms(1) by (simp add: np_rfft_def)
  have l: "length (take (length x div 2 + 1) (dft (map complex_of_real x))) = length x div 2 + 1"
    using n2 by simp
  have n: "2 * (int (length x div 2 + 1) - 1) = int (length x)"
    using assms(2) by auto
  have "np_irfft (take (length x div 2 + 1) (dft (map complex_of_real x)))
          = Inr (map Re (idft (hermitian_extend (length x)
                   (take (length x div 2 + 1) (dft (map complex_of_real x))))))"
    unfolding np_irfft_def l n Let_def using assms(1) by simp
  also have "\<dots> = Inr x"
    by (simp only: hermitian_extend_dft idft_dft) (simp add: comp_def)
  finally show ?thesis by (simp add: rfft_irfft_def r)
qed

lemma rfft_irfft_odd_length:
  assumes "odd (length x)" and "rfft_irfft x = Inr y"
  shows "length y = length x - 1"
proof -
  from assms(1) have xne: "x \<noteq> []" by auto
  then have x: "length x \<ge> 1" by (cases x) auto
  have r: "np_rfft x = Inr (take (length x div 2 + 1) (dft (map complex_of_real x)))"
    using xne by (simp add: np_rfft_def)
  have l: "length (take (length x div 2 + 1) (dft (map complex_of_real x))) = length x div 2 + 1"
    using x by simp
  from assms(2) have "np_irfft (take (length x div 2 + 1) (dft (map complex_of_real x))) = Inr y"
    by (simp add: rfft_irfft_def r)
  then have "length y = nat (2 * (int (length x div 2 + 1) - 1))"
    unfolding np_irfft_def l Let_def by (auto simp: hermitian_extend_def split: if_splits)
  also have "\<dots> = length x - 1" using assms(1) by (auto elim!: oddE)
  finally show ?thesis .
qed

lemma fft_ifft_real_empty: "fft_ifft_real [] = Inl ValueError"
  by (simp add: fft_ifft_real_def np_fft_def)

lemma rfft_irfft_empty: "rfft_irfft [] = Inl ValueError"
  by (simp add: rfft_irfft_def np_rfft_def)

lemma rfft_irfft_single:
  assumes "length x = 1"
  shows "rfft_irfft x = Inl ValueError"
  using assms by (simp add: rfft_irfft_def np_rfft_def np_irfft_def Let_def)

lemma rfft_irfft_odd:
  assumes "odd (length x)" and "3 \<le> length x"
  shows "\<exists>y. rfft_irfft x = Inr y \<and> length y = length x - 1"
proof -
  define A where "A = take (length x div 2 + 1) (dft (map complex_of_real x))"
  from assms(1) obtain b where b: "length x = 2 * b + 1" by (auto elim: oddE)
  with assms(2) have b1: "1 \<le> b" by simp
  have r: "np_rfft x = Inr A"
    using assms(2) by (cases x) (simp_all add: np_rfft_def A_def)
  have l: "length A = b + 1" using b by (simp add: A_def)
  have n: "2 * (int (b + 1) - 1) = int (2 * b)" by simp
  have n1: "\<not> int (2 * b) < 1" using b1 by simp
  have "rfft_irfft x = np_irfft A" by (simp add: rfft_irfft_def r)
  also have "\<dots> = Inr (map Re (idft (hermitian_extend (2 * b) A)))"
    unfolding np_irfft_def l Let_def n by (simp only: n1 if_False nat_int)
  finally have "rfft_irfft x = Inr (map Re (idft (hermitian_extend (2 * b) A)))" .
  moreover have "length (map Re (idft (hermitian_extend (2 * b) A))) = length x - 1"
    by (simp add: b hermitian_extend_def)
  ultimately show ?thesis by blast
qed

text \<open>
  C4, as stated, fails on the half-spectrum path: \<^verbatim>\<open>np.fft.irfft\<close> is called without a
  length, so a frame of odd length \<open>N\<close> comes back with \<open>N - 1\<close> samples.
\<close>

theorem rfft_irfft_counterexample: "rfft_irfft [1, 2, 3] \<noteq> Inr [1, 2, 3]"
proof
  assume "rfft_irfft [1, 2, 3] = Inr [1, 2, 3]"
  then have "length [1, 2, 3 :: real] = length [1, 2, 3 :: real] - 1"
    using rfft_irfft_odd_length [of "[1, 2, 3]" "[1, 2, 3]"] by simp
  then show False by simp
qed


text \<open>
  C4, amended. For every non-empty real frame \<open>x\<close> of length \<open>N\<close>,
  \<^verbatim>\<open>np.fft.ifft(np.fft.fft(x)).real\<close> is \<open>x\<close> again (exact arithmetic).
  \<^verbatim>\<open>np.fft.irfft(np.fft.rfft(x))\<close>, called with no length, is \<open>x\<close> again when \<open>N\<close> is
  even; for odd \<open>N \<ge> 3\<close> it returns \<open>N - 1\<close> samples; for \<open>N = 1\<close> it raises
  \<^verbatim>\<open>ValueError\<close>. On the empty frame both paths raise \<^verbatim>\<open>ValueError\<close>.
\<close>

theorem synthesize_analyze_roundtrip:
  "(x = [] \<longrightarrow> fft_ifft_real x = Inl ValueError \<and> rfft_irfft x = Inl ValueError) \<and>
   (x \<noteq> [] \<longrightarrow> fft_ifft_real x = Inr x) \<and>
   (x \<noteq> [] \<and> even (length x) \<longrightarrow> rfft_irfft x = Inr x) \<and>
   (length x = 1 \<longrightarrow> rfft_irfft x = Inl ValueError) \<and>
   (odd (length x) \<and> 3 \<le> length x \<longrightarrow>
      (\<exists>y. rfft_irfft x = Inr y \<and> length y = length x - 1))"
  using fft_ifft_real_ok [of x] rfft_irfft_even [of x] rfft_irfft_single [of x]
    rfft_irfft_odd [of x]
  by (auto simp: fft_ifft_real_empty rfft_irfft_empty)

theorem synthesize_analyze_roundtrip_witness:
  "fft_ifft_real [] = Inl ValueError \<and> rfft_irfft [] = Inl ValueError \<and>
   [1, 2] \<noteq> ([] :: real list) \<and> even (length [1, 2 :: real]) \<and>
   fft_ifft_real [1, 2] = Inr [1, 2] \<and> rfft_irfft [1, 2] = Inr [1, 2] \<and>
   length [5 :: real] = 1 \<and> fft_ifft_real [5] = Inr [5] \<and> rfft_irfft [5] = Inl ValueError \<and>
   odd (length [1, 2, 3 :: real]) \<and> 3 \<le> length [1, 2, 3 :: real] \<and>
   fft_ifft_real [1, 2, 3] = Inr [1, 2, 3] \<and>
   (\<exists>y. rfft_irfft [1, 2, 3] = Inr y \<and> length y = 2)"
proof -
  have 0: "fft_ifft_real [] = Inl ValueError \<and> rfft_irfft [] = Inl ValueError"
    using synthesize_analyze_roundtrip [of "[]"] by simp
  have 2: "[1, 2] \<noteq> ([] :: real list) \<and> even (length [1, 2 :: real]) \<and>
           fft_ifft_real [1, 2] = Inr [1, 2] \<and> rfft_irfft [1, 2] = Inr [1, 2]"
    using synthesize_analyze_roundtrip [of "[1, 2]"] by simp
  have 1: "length [5 :: real] = 1 \<and> fft_ifft_real [5] = Inr [5] \<and> rfft_irfft [5] = Inl ValueError"
    using synthesize_analyze_roundtrip [of "[5]"] by simp
  have o: "odd (length [1, 2, 3 :: real])" "3 \<le> length [1, 2, 3 :: real]"
    "[1, 2, 3] \<noteq> ([] :: real list)" "length [1, 2, 3 :: real] - 1 = 2"
    by simp_all
  from synthesize_analyze_roundtrip [of "[1, 2, 3]"] o(1,2,3)
  have "fft_ifft_real [1, 2, 3] = Inr [1, 2, 3] \<and>
        (\<exists>y. rfft_irfft [1, 2, 3] = Inr y \<and> length y = length [1, 2, 3 :: real] - 1)"
    by blast
  then have 3: "fft_ifft_real [1, 2, 3] = Inr [1, 2, 3] \<and>
        (\<exists>y. rfft_irfft [1, 2, 3] = Inr y \<and> length y = 2)"
    unfolding o(4) .
  from 0 1 2 3 o(1,2) show ?thesis by blast
qed

lemma Im_dft_real_0:
  assumes "x \<noteq> []"
  shows "Im (dft (map complex_of_real x) ! 0) = 0"
  using assms by (simp add: nth_dft)

lemma Im_dft_real_nyquist:
  assumes "x \<noteq> []" and "even (length x)"
  shows "Im (dft (map complex_of_real x) ! (length x div 2)) = 0"
proof -
  from assms(2) obtain b where b: "length x = 2 * b" by (auto elim: evenE)
  with assms(1) have b0: "b \<noteq> 0" by (cases x) simp_all
  have k: "length x div 2 < length x" using b b0 by simp
  have e: "2 * pi * real m * real (length x div 2) / real (length x) = pi * real m" for m
    using b b0 by simp
  have "dft (map complex_of_real x) ! (length x div 2)
          = (\<Sum>m<length x. complex_of_real (x ! m) * cis (- (pi * real m)))"
    using k by (simp add: nth_dft e)
  then show ?thesis by simp
qed

text \<open>
  C9. For every real frame of even length \<open>N\<close> the analysis output has \<open>N div 2 + 1\<close>
  bins, and the imaginary parts of bin 0 (DC) and of bin \<open>N div 2\<close> (Nyquist) are zero;
  the only frame with no output is the empty one, on which NumPy raises.
\<close>

theorem half_spectrum_dc_nyquist:
  assumes "even (length x)"
  shows "(x = [] \<and> half_spectrum x = Inl ValueError) \<or>
         (\<exists>X. half_spectrum x = Inr X \<and> length X = length x div 2 + 1 \<and>
              Im (X ! 0) = 0 \<and> Im (X ! (length x div 2)) = 0)"
proof (cases "x = []")
  case True
  then show ?thesis by (simp add: half_spectrum_def np_fft_def)
next
  case False
  define X where "X = take (length x div 2 + 1) (dft (map complex_of_real x))"
  from assms obtain b where b: "length x = 2 * b" by (auto elim: evenE)
  with False have b0: "b \<noteq> 0" by (cases x) simp_all
  have le: "length x div 2 + 1 \<le> length (dft (map complex_of_real x))"
    using b b0 by simp
  have "py_slice (dft (map complex_of_real x)) (int 0) (int 0 + int (length x div 2 + 1))
          = take (length x div 2 + 1) (drop 0 (dft (map complex_of_real x)))"
    by (rule py_slice_in_range) (use le in simp)
  then have sl: "py_slice (dft (map complex_of_real x)) 0 (int (length x) div 2 + 1) = X"
    by (simp add: X_def zdiv_int add.commute)
  have h: "half_spectrum x = Inr X"
    using False by (simp add: half_spectrum_def np_fft_def sl)
  have l: "length X = length x div 2 + 1" using le by (simp add: X_def)
  have i0: "Im (X ! 0) = 0" using Im_dft_real_0 [OF False] by (simp add: X_def)
  have iN: "Im (X ! (length x div 2)) = 0"
    using Im_dft_real_nyquist [OF False assms] by (simp add: X_def)
  from h l i0 iN show ?thesis by blast
qed

theorem half_spectrum_dc_nyquist_witness:
  "even (length [1, 2, 3, 4 :: real]) \<and>
   (\<exists>X. half_spectrum [1, 2, 3, 4] = Inr X \<and> length X = 3 \<and> Im (X ! 0) = 0 \<and> Im (X ! 2) = 0)"
proof -
  have e: "even (length [1, 2, 3, 4 :: real])" by simp
  have l: "length [1, 2, 3, 4 :: real] = 4" by simp
  have d: "(4::nat) div 2 = 2" "(2::nat) + 1 = 3" by simp_all
  have n: "[1, 2, 3, 4 :: real] \<noteq> []" by simp
  from half_spectrum_dc_nyquist [OF e, unfolded l d] n
  have "\<exists>X. half_spectrum [1, 2, 3, 4] = Inr X \<and> length X = 3 \<and> Im (X ! 0) = 0 \<and> Im (X ! 2) = 0"
    by blast
  with e show ?thesis by blast
qed

section \<open>The peak bin of the 440 Hz frame\<close>

subsection \<open>The transform of the Hann window in closed form\<close>

lemma complex_cos_cis: "complex_of_real (cos x) = (cis x + cis (- x)) / 2"
  by (simp add: complex_eq_iff)

lemma complex_sin_cis: "complex_of_real (sin x) = (cis x - cis (- x)) / (2 * \<i>)"
  by (simp add: complex_eq_iff)

lemma hann_sum_split:
  assumes "0 < N"
  shows "hann_sum N a = (\<Sum>m<N. cis a ^ m) / 2
                        - (\<Sum>m<N. (cis a * cis (2 * pi / real N)) ^ m) / 4
                        - (\<Sum>m<N. (cis a * cis (- (2 * pi / real N))) ^ m) / 4"
proof -
  have t: "complex_of_real (1 / 2 - cos (2 * pi * real m / real N) / 2) * cis (a * real m)
        = cis a ^ m / 2 - (cis a * cis (2 * pi / real N)) ^ m / 4
          - (cis a * cis (- (2 * pi / real N))) ^ m / 4" for m
  proof -
    have p1: "cis (2 * pi / real N) ^ m = cis (2 * pi * real m / real N)"
      by (simp add: DeMoivre mult_ac)
    have p2: "cis (- (2 * pi / real N)) ^ m = cis (- (2 * pi * real m / real N))"
      by (simp add: DeMoivre mult_ac)
    have p3: "cis a ^ m = cis (a * real m)" by (simp add: DeMoivre mult_ac)
    have "complex_of_real (1 / 2 - cos (2 * pi * real m / real N) / 2)
        = 1 / 2 - (cis (2 * pi * real m / real N) + cis (- (2 * pi * real m / real N))) / 4"
      unfolding of_real_diff of_real_divide complex_cos_cis [of "2 * pi * real m / real N"]
      by simp
    then show ?thesis
      by (simp only: power_mult_distrib p1 p2 p3) (simp add: algebra_simps)
  qed
  show ?thesis
    unfolding hann_sum_def t by (simp add: sum_subtractf sum_divide_distrib)
qed

lemma hann_sum_poly:
  assumes "0 < N"
  shows "(cis a - 1) * ((cis a)\<^sup>2 - 2 * complex_of_real (cos (2 * pi / real N)) * cis a + 1) * hann_sum N a
           = (cis a ^ N - 1) * complex_of_real (1 - cos (2 * pi / real N)) * cis a * (cis a + 1) / 2"
proof -
  define z where "z = cis a"
  define c where "c = complex_of_real (cos (2 * pi / real N))"
  define y1 where "y1 = z * cis (2 * pi / real N)"
  define y2 where "y2 = z * cis (- (2 * pi / real N))"
  define W where "W = z ^ N - 1"
  define S where "S y = (\<Sum>m<N. y ^ m)" for y :: complex
  have "cis (- (2 * pi)) = 1" by (simp add: complex_eq_iff)
  then have zN: "cis (2 * pi / real N) ^ N = 1" "cis (- (2 * pi / real N)) ^ N = 1"
    using assms by (simp_all add: DeMoivre)
  have s0: "(z - 1) * S z = W" by (simp add: S_def W_def power_diff_1_eq)
  have "y1 ^ N = z ^ N" "y2 ^ N = z ^ N"
    by (simp_all add: y1_def y2_def power_mult_distrib zN)
  then have s1: "(y1 - 1) * S y1 = W" and s2: "(y2 - 1) * S y2 = W"
    unfolding S_def W_def by (simp_all only: power_diff_1_eq [symmetric])
  have e1: "y1 * y2 = z * z"
    by (simp add: y1_def y2_def cis_mult mult.assoc mult.left_commute)
  have e2: "y1 + y2 = 2 * c * z"
    using complex_cos_cis [of "2 * pi / real N"] by (simp add: y1_def y2_def c_def algebra_simps)
  have h: "hann_sum N a = S z / 2 - S y1 / 4 - S y2 / 4"
    unfolding S_def y1_def y2_def z_def using assms by (rule hann_sum_split)
  have q: "z\<^sup>2 - 2 * c * z + 1 = (y1 - 1) * (y2 - 1)"
    using e1 e2 by (simp add: algebra_simps power2_eq_square)
  have h4: "4 * hann_sum N a = 2 * S z - S y1 - S y2"
    unfolding h by simp
  have "(z - 1) * ((y1 - 1) * (y2 - 1)) * (2 * S z - S y1 - S y2)
      = 2 * ((y1 - 1) * (y2 - 1)) * ((z - 1) * S z)
        - (z - 1) * (y2 - 1) * ((y1 - 1) * S y1)
        - (z - 1) * (y1 - 1) * ((y2 - 1) * S y2)"
    by (simp add: algebra_simps)
  also have "\<dots> = W * (2 * ((y1 - 1) * (y2 - 1)) - (z - 1) * ((y1 + y2) - 2))"
    unfolding s0 s1 s2 by (simp add: algebra_simps)
  also have "\<dots> = W * (2 * (z\<^sup>2 - 2 * c * z + 1) - (z - 1) * (2 * c * z - 2))"
    unfolding q e2 ..
  also have "\<dots> = 2 * (W * (1 - c) * z * (z + 1))"
    by (simp add: algebra_simps power2_eq_square)
  finally have f: "(z - 1) * ((y1 - 1) * (y2 - 1)) * (4 * hann_sum N a)
      = 2 * (W * (1 - c) * z * (z + 1))"
    unfolding h4 .
  define P where "P = (z - 1) * ((y1 - 1) * (y2 - 1)) * hann_sum N a"
  define R where "R = W * (1 - c) * z * (z + 1)"
  have "4 * P = 2 * R" using f unfolding P_def R_def by (simp only: mult_ac)
  then have "P = R / 2" by (simp add: mult.commute)
  then show ?thesis
    unfolding P_def R_def q [symmetric] z_def c_def W_def by simp
qed

lemma cmod_cis_minus_1: "cmod (cis (2 * u) - 1) = 2 * \<bar>sin u\<bar>"
proof -
  have "(cmod (cis (2 * u) - 1))\<^sup>2 = (cos (2 * u) - 1)\<^sup>2 + (sin (2 * u))\<^sup>2"
    by (simp add: cmod_power2)
  also have "\<dots> = 2 - 2 * cos (2 * u)"
    using sin_cos_squared_add [of "2 * u"] by (simp add: power2_eq_square algebra_simps)
  also have "\<dots> = (2 * \<bar>sin u\<bar>)\<^sup>2"
    by (simp add: cos_double_sin power2_eq_square)
  finally show ?thesis by (rule power2_eq_imp_eq) simp_all
qed

lemma cmod_cis_plus_1: "cmod (cis (2 * u) + 1) = 2 * \<bar>cos u\<bar>"
proof -
  have "(cmod (cis (2 * u) + 1))\<^sup>2 = (cos (2 * u) + 1)\<^sup>2 + (sin (2 * u))\<^sup>2"
    by (simp add: cmod_power2)
  also have "\<dots> = 2 + 2 * cos (2 * u)"
    using sin_cos_squared_add [of "2 * u"] by (simp add: power2_eq_square algebra_simps)
  also have "\<dots> = (2 * \<bar>cos u\<bar>)\<^sup>2"
    by (simp add: cos_double_cos power2_eq_square)
  finally show ?thesis by (rule power2_eq_imp_eq) simp_all
qed

lemma cmod_cis_quadratic:
  "cmod ((cis a)\<^sup>2 - 2 * complex_of_real c * cis a + 1) = 2 * \<bar>cos a - c\<bar>"
proof -
  have "cis a * cis (- a) = 1" by (simp add: cis_mult)
  then have "(cis a)\<^sup>2 - 2 * complex_of_real c * cis a + 1
      = cis a * (cis a + cis (- a) - 2 * complex_of_real c)"
    by (simp add: algebra_simps power2_eq_square)
  also have "cis a + cis (- a) = 2 * complex_of_real (cos a)"
    by (simp add: complex_eq_iff)
  finally have e: "(cis a)\<^sup>2 - 2 * complex_of_real c * cis a + 1
      = cis a * complex_of_real (2 * (cos a - c))"
    by (simp add: algebra_simps)
  have "cmod ((cis a)\<^sup>2 - 2 * complex_of_real c * cis a + 1)
      = cmod (cis a) * cmod (complex_of_real (2 * (cos a - c)))"
    by (simp only: e norm_mult)
  also have "\<dots> = \<bar>2 * (cos a - c)\<bar>" by (simp only: norm_cis norm_of_real mult_1)
  also have "\<dots> = 2 * \<bar>cos a - c\<bar>" unfolding abs_mult by simp
  finally show ?thesis .
qed

lemma hann_sum_norm:
  assumes "0 < N"
  shows "2 * \<bar>sin u\<bar> * \<bar>sin (u + pi / real N)\<bar> * \<bar>sin (u - pi / real N)\<bar> * cmod (hann_sum N (2 * u))
           = \<bar>sin (real N * u)\<bar> * (sin (pi / real N))\<^sup>2 * \<bar>cos u\<bar>"
proof -
  define v where "v = pi / real N"
  define c where "c = cos (2 * v)"
  have psi: "2 * pi / real N = 2 * v" by (simp add: v_def)
  have n1: "cmod (cis (2 * u) - 1) = 2 * \<bar>sin u\<bar>" by (rule cmod_cis_minus_1)
  have n2: "cmod ((cis (2 * u))\<^sup>2 - 2 * complex_of_real c * cis (2 * u) + 1) = 2 * \<bar>cos (2 * u) - c\<bar>"
    by (rule cmod_cis_quadratic)
  have "cis (2 * u) ^ N = cis (2 * (real N * u))" by (simp add: DeMoivre mult_ac)
  then have n3: "cmod (cis (2 * u) ^ N - 1) = 2 * \<bar>sin (real N * u)\<bar>"
    by (simp only: cmod_cis_minus_1)
  have n4: "cmod (cis (2 * u) + 1) = 2 * \<bar>cos u\<bar>" by (rule cmod_cis_plus_1)
  have c1: "1 - c = 2 * (sin v)\<^sup>2" by (simp add: c_def cos_double_sin)
  have "(2 * u + 2 * v) / 2 = u + v" "(2 * v - 2 * u) / 2 = v - u" by simp_all
  then have c2: "cos (2 * u) - c = 2 * sin (u + v) * sin (v - u)"
    unfolding c_def cos_diff_cos by (simp only:)
  have "sin (v - u) = - sin (u - v)" using sin_minus [of "u - v"] by simp
  then have c3: "\<bar>cos (2 * u) - c\<bar> = 2 * \<bar>sin (u + v)\<bar> * \<bar>sin (u - v)\<bar>"
    unfolding c2 by (simp add: abs_mult)
  have "cmod ((cis (2 * u) - 1) * ((cis (2 * u))\<^sup>2 - 2 * complex_of_real c * cis (2 * u) + 1)
              * hann_sum N (2 * u))
      = cmod ((cis (2 * u) ^ N - 1) * complex_of_real (1 - c) * cis (2 * u) * (cis (2 * u) + 1) / 2)"
    by (simp only: hann_sum_poly [OF assms, of "2 * u", unfolded psi, folded c_def])
  then have "2 * \<bar>sin u\<bar> * (2 * (2 * \<bar>sin (u + v)\<bar> * \<bar>sin (u - v)\<bar>)) * cmod (hann_sum N (2 * u))
      = 2 * \<bar>sin (real N * u)\<bar> * \<bar>1 - c\<bar> * (2 * \<bar>cos u\<bar>) / 2"
    by (simp only: norm_mult norm_divide n1 n2 n3 n4 c3 norm_of_real norm_cis) simp
  moreover have "\<bar>1 - c\<bar> = 2 * (sin v)\<^sup>2" unfolding c1 by simp
  ultimately have "4 * (2 * \<bar>sin u\<bar> * \<bar>sin (u + v)\<bar> * \<bar>sin (u - v)\<bar> * cmod (hann_sum N (2 * u)))
      = 4 * (\<bar>sin (real N * u)\<bar> * (sin v)\<^sup>2 * \<bar>cos u\<bar>)"
    by (simp add: mult_ac)
  then have "2 * \<bar>sin u\<bar> * \<bar>sin (u + v)\<bar> * \<bar>sin (u - v)\<bar> * cmod (hann_sum N (2 * u))
      = \<bar>sin (real N * u)\<bar> * (sin v)\<^sup>2 * \<bar>cos u\<bar>"
    by (simp only: mult_cancel_left) simp
  then show ?thesis unfolding v_def .
qed

subsection \<open>Elementary bounds on sine and cosine\<close>

lemma sin_lower_cubic:
  fixes x :: real
  assumes "0 \<le> x"
  shows "x - x ^ 3 / 6 \<le> sin x"
proof -
  have s: "(\<Sum>m<3. sin_coeff m * x ^ m) = x"
    by (simp add: eval_nat_numeral sin_coeff_def)
  have "\<bar>sin x - x\<bar> \<le> inverse (fact 3) * \<bar>x\<bar> ^ 3"
    using Maclaurin_sin_bound [of x 3] unfolding s .
  moreover have "inverse (fact 3 :: real) = 1 / 6" by (simp add: eval_nat_numeral)
  ultimately have "\<bar>sin x - x\<bar> \<le> x ^ 3 / 6" using assms by simp
  then show ?thesis by linarith
qed

lemma sin_lower_small:
  fixes x :: real
  assumes "0 \<le> x" and "x \<le> 1 / 10"
  shows "599 / 600 * x \<le> sin x"
proof -
  have "x * x \<le> 1 / 10 * (1 / 10)" using assms by (intro mult_mono) simp_all
  then have "x * (x * x) \<le> x * (1 / 10 * (1 / 10))"
    using assms(1) by (rule mult_left_mono)
  then have "x ^ 3 \<le> x * (1 / 100)"
    by (simp add: power3_eq_cube mult.assoc)
  then have "x - x * (1 / 100) / 6 \<le> x - x ^ 3 / 6" by simp
  with sin_lower_cubic [OF assms(1)] show ?thesis by simp
qed

lemma sin_ge_on_arc:
  fixes x x0 :: real
  assumes "0 \<le> x0" and "x0 \<le> x" and "x \<le> pi - x0"
  shows "sin x0 \<le> sin x"
proof (cases "x \<le> pi / 2")
  case True
  with assms show ?thesis by (intro sin_monotone_2pi_le) simp_all
next
  case False
  have "sin x0 \<le> sin (pi - x)"
    using assms False by (intro sin_monotone_2pi_le) simp_all
  then show ?thesis by simp
qed

lemma cos_lower_quadratic:
  fixes x :: real
  shows "1 - x\<^sup>2 / 2 \<le> cos x"
proof -
  have "cos x = 1 - 2 * (sin (x / 2))\<^sup>2"
    using cos_double_sin [of "x / 2"] by simp
  moreover have "(sin (x / 2))\<^sup>2 \<le> (x / 2)\<^sup>2"
    using abs_sin_x_le_abs_x [of "x / 2"] by (simp only: abs_le_square_iff [symmetric])
  ultimately show ?thesis by (simp add: power2_eq_square)
qed

lemma bound_upper:
  fixes h :: real
  assumes "P * h = Q" and "0 \<le> h" and "p \<le> P" and "Q \<le> q" and "0 < p" and "q \<le> B * p"
  shows "h \<le> B"
proof -
  have "p * h \<le> P * h" using assms(3,2) by (rule mult_right_mono)
  also have "\<dots> \<le> B * p" using assms(1,4,6) by simp
  finally have "h * p \<le> B * p" by (simp add: mult.commute)
  then show ?thesis using assms(5) by simp
qed

lemma bound_lower:
  fixes h :: real
  assumes "P * h = Q" and "0 \<le> h" and "P \<le> p" and "q \<le> Q" and "0 < p" and "B * p \<le> q"
  shows "B \<le> h"
proof -
  have "B * p \<le> P * h" using assms(1,4,6) by simp
  also have "\<dots> \<le> p * h" using assms(3,2) by (rule mult_right_mono)
  finally have "B * p \<le> h * p" by (simp add: mult.commute)
  then show ?thesis using assms(5) by simp
qed

subsection \<open>Bounds on the window transform for frame size 4096\<close>

lemma peak_scale_pos: "0 < peak_scale"
proof -
  have "0 < pi * 293 / 2205" by simp
  moreover have "pi * 293 / 2205 < pi" by simp
  ultimately have "0 < sin (pi * 293 / 2205)" by (rule sin_gt_zero)
  moreover have "0 < sin (pi / 4096)" by (rule sin_gt_zero) simp_all
  ultimately show ?thesis unfolding peak_scale_def by simp
qed

lemma peak_scale_cube:
  "peak_scale * (pi / 4096) ^ 3 = sin (pi * 293 / 2205) * (sin (pi / 4096))\<^sup>2"
  unfolding peak_scale_def by simp

lemma abs_sin_pi_shift:
  "\<bar>sin (pi * (x + real_of_int j))\<bar> = \<bar>sin (pi * x)\<bar>"
proof -
  have "sin (pi * (x + real_of_int j)) = sin (pi * x) * cos (pi * real_of_int j)"
    by (simp only: distrib_left sin_add sin_npi_int)
  then show ?thesis by (simp add: cos_npi_int abs_mult)
qed

lemma sin_peak_pos: "0 < sin (pi * 293 / 2205)"
  by (rule sin_gt_zero) simp_all

lemma abs_sin_positive_bin:
  "\<bar>sin (pi * (90112 / 2205 - real k))\<bar> = sin (pi * 293 / 2205)"
proof -
  have "90112 / 2205 - real k = - (293 / 2205) + real_of_int (41 - int k)" by simp
  then have "\<bar>sin (pi * (90112 / 2205 - real k))\<bar> = \<bar>sin (pi * (- (293 / 2205)))\<bar>"
    by (simp only: abs_sin_pi_shift)
  also have "\<dots> = \<bar>sin (pi * 293 / 2205)\<bar>" by simp
  finally show ?thesis using sin_peak_pos by simp
qed

lemma abs_sin_negative_bin:
  "\<bar>sin (pi * (- (90112 / 2205 + real k)))\<bar> = sin (pi * 293 / 2205)"
proof -
  have "- (90112 / 2205 + real k) = 293 / 2205 + real_of_int (- 41 - int k)" by simp
  then have "\<bar>sin (pi * (- (90112 / 2205 + real k)))\<bar> = \<bar>sin (pi * (293 / 2205))\<bar>"
    by (simp only: abs_sin_pi_shift)
  then show ?thesis using sin_peak_pos by simp
qed

lemma abs_sin_lower:
  fixes x x0 :: real
  assumes "0 \<le> x0" and "x0 \<le> 1 / 10" and "x0 \<le> \<bar>x\<bar>" and "\<bar>x\<bar> \<le> pi - x0"
  shows "599 / 600 * x0 \<le> \<bar>sin x\<bar>"
proof -
  have "599 / 600 * x0 \<le> sin x0" using assms(1,2) by (rule sin_lower_small)
  also have "\<dots> \<le> sin \<bar>x\<bar>" using assms(1,3,4) by (rule sin_ge_on_arc)
  also have "\<dots> \<le> \<bar>sin x\<bar>" by (cases "0 \<le> x") simp_all
  finally show ?thesis .
qed

lemma abs_sin_lower_scaled:
  fixes a s v :: real
  assumes "0 < v" and "v \<le> 1 / 1000" and "pi = 4096 * v"
    and "0 \<le> a" and "a \<le> 3" and "a \<le> \<bar>s\<bar>" and "\<bar>s\<bar> \<le> 4001"
  shows "599 / 600 * (a * v) \<le> \<bar>sin (s * v)\<bar>"
proof (rule abs_sin_lower)
  show "0 \<le> a * v" using assms(1,4) by simp
  have "a * v \<le> 3 * (1 / 1000)" using assms(1,2,4,5) by (intro mult_mono) simp_all
  then show "a * v \<le> 1 / 10" by simp
  have m: "\<bar>s * v\<bar> = \<bar>s\<bar> * v" using assms(1) by (simp add: abs_mult)
  show "a * v \<le> \<bar>s * v\<bar>" unfolding m using assms(1,6) by (intro mult_right_mono) simp_all
  have "(\<bar>s\<bar> + a) * v \<le> 4096 * v" using assms(1,5,7) by (intro mult_right_mono) simp_all
  then show "\<bar>s * v\<bar> \<le> pi - a * v" unfolding m assms(3) by (simp add: algebra_simps)
qed

lemma abs_sin_upper_scaled:
  fixes a s v :: real
  assumes "0 < v" and "\<bar>s\<bar> \<le> a"
  shows "\<bar>sin (s * v)\<bar> \<le> a * v"
proof -
  have "\<bar>sin (s * v)\<bar> \<le> \<bar>s * v\<bar>" by (rule abs_sin_x_le_abs_x)
  also have "\<dots> = \<bar>s\<bar> * v" using assms(1) by (simp add: abs_mult)
  also have "\<dots> \<le> a * v" using assms by (intro mult_right_mono) simp_all
  finally show ?thesis .
qed

lemma hann_sum_norm_4096:
  "2 * \<bar>sin (t * (pi / 4096))\<bar> * \<bar>sin ((t + 1) * (pi / 4096))\<bar> * \<bar>sin ((t - 1) * (pi / 4096))\<bar>
       * cmod (hann_sum 4096 (2 * (t * (pi / 4096))))
     = \<bar>sin (pi * t)\<bar> * (sin (pi / 4096))\<^sup>2 * \<bar>cos (t * (pi / 4096))\<bar>"
proof -
  have e: "t * (pi / 4096) + pi / 4096 = (t + 1) * (pi / 4096)"
    "t * (pi / 4096) - pi / 4096 = (t - 1) * (pi / 4096)"
    "4096 * (t * (pi / 4096)) = pi * t"
    by (simp_all add: algebra_simps)
  have n: "(0::nat) < 4096" by simp
  show ?thesis
    using hann_sum_norm [OF n, of "t * (pi / 4096)"] unfolding of_nat_numeral e .
qed

lemma three_mono:
  fixes x y z x' y' z' :: real
  assumes "0 \<le> x" and "x \<le> x'" and "0 \<le> y" and "y \<le> y'" and "0 \<le> z" and "z \<le> z'"
  shows "2 * x * y * z \<le> 2 * x' * y' * z'"
proof -
  have "x * y \<le> x' * y'" using assms by (intro mult_mono) simp_all
  moreover have "0 \<le> x' * y'" using assms by (intro mult_nonneg_nonneg) simp_all
  ultimately have "(x * y) * z \<le> (x' * y') * z'" using assms by (intro mult_mono) simp_all
  then show ?thesis by (simp add: mult.assoc)
qed

lemma hann_sum_upper:
  fixes t a b c :: real
  assumes S: "\<bar>sin (pi * t)\<bar> = sin (pi * 293 / 2205)"
    and a: "0 < a" "a \<le> 3" "a \<le> \<bar>t - 1\<bar>"
    and b: "0 < b" "b \<le> 3" "b \<le> \<bar>t\<bar>"
    and c: "0 < c" "c \<le> 3" "c \<le> \<bar>t + 1\<bar>"
    and t: "\<bar>t\<bar> \<le> 4000"
  shows "cmod (hann_sum 4096 (2 * (t * (pi / 4096))))
           \<le> peak_scale / (2 * (599 / 600) ^ 3 * (a * b * c))"
proof -
  define v where "v = pi / 4096"
  define h where "h = cmod (hann_sum 4096 (2 * (t * v)))"
  have v0: "0 < v" by (simp add: v_def)
  have v1: "v \<le> 1 / 1000" using pi_less_4 by (simp add: v_def)
  have vp: "pi = 4096 * v" by (simp add: v_def)
  have t1: "\<bar>t\<bar> \<le> 4001" "\<bar>t + 1\<bar> \<le> 4001" "\<bar>t - 1\<bar> \<le> 4001" using t by simp_all
  have sb: "599 / 600 * (b * v) \<le> \<bar>sin (t * v)\<bar>"
    using v0 v1 vp _ b(2,3) t1(1) by (rule abs_sin_lower_scaled) (use b(1) in simp)
  have sc: "599 / 600 * (c * v) \<le> \<bar>sin ((t + 1) * v)\<bar>"
    using v0 v1 vp _ c(2,3) t1(2) by (rule abs_sin_lower_scaled) (use c(1) in simp)
  have sa: "599 / 600 * (a * v) \<le> \<bar>sin ((t - 1) * v)\<bar>"
    using v0 v1 vp _ a(2,3) t1(3) by (rule abs_sin_lower_scaled) (use a(1) in simp)
  have eq: "2 * \<bar>sin (t * v)\<bar> * \<bar>sin ((t + 1) * v)\<bar> * \<bar>sin ((t - 1) * v)\<bar> * h
              = sin (pi * 293 / 2205) * (sin v)\<^sup>2 * \<bar>cos (t * v)\<bar>"
    unfolding h_def v_def hann_sum_norm_4096 S ..
  have pP: "2 * (599 / 600 * (b * v)) * (599 / 600 * (c * v)) * (599 / 600 * (a * v))
              \<le> 2 * \<bar>sin (t * v)\<bar> * \<bar>sin ((t + 1) * v)\<bar> * \<bar>sin ((t - 1) * v)\<bar>"
    using a(1) b(1) c(1) v0 sa sb sc by (intro three_mono) simp_all
  have Qq: "sin (pi * 293 / 2205) * (sin v)\<^sup>2 * \<bar>cos (t * v)\<bar>
              \<le> sin (pi * 293 / 2205) * (sin v)\<^sup>2"
  proof -
    have "0 \<le> sin (pi * 293 / 2205) * (sin v)\<^sup>2" using sin_peak_pos by simp
    moreover have "\<bar>cos (t * v)\<bar> \<le> 1" by simp
    ultimately have "sin (pi * 293 / 2205) * (sin v)\<^sup>2 * \<bar>cos (t * v)\<bar>
                       \<le> sin (pi * 293 / 2205) * (sin v)\<^sup>2 * 1"
      by (rule mult_left_mono [rotated])
    then show ?thesis by simp
  qed
  have p0: "0 < 2 * (599 / 600 * (b * v)) * (599 / 600 * (c * v)) * (599 / 600 * (a * v))"
    using a(1) b(1) c(1) v0 by simp
  have Bp: "sin (pi * 293 / 2205) * (sin v)\<^sup>2
              \<le> peak_scale / (2 * (599 / 600) ^ 3 * (a * b * c))
                  * (2 * (599 / 600 * (b * v)) * (599 / 600 * (c * v)) * (599 / 600 * (a * v)))"
  proof -
    have "peak_scale / (2 * (599 / 600) ^ 3 * (a * b * c))
            * (2 * (599 / 600 * (b * v)) * (599 / 600 * (c * v)) * (599 / 600 * (a * v)))
          = peak_scale * v ^ 3"
      using a(1) b(1) c(1) by (simp add: field_simps power3_eq_cube)
    then show ?thesis unfolding v_def peak_scale_cube by simp
  qed
  have "h \<le> peak_scale / (2 * (599 / 600) ^ 3 * (a * b * c))"
    using eq _ pP Qq p0 Bp by (rule bound_upper) (simp add: h_def)
  then show ?thesis unfolding h_def v_def .
qed

lemma hann_sum_lower:
  fixes t a b c :: real
  assumes S: "\<bar>sin (pi * t)\<bar> = sin (pi * 293 / 2205)"
    and a: "0 < a" "\<bar>t - 1\<bar> \<le> a"
    and b: "0 < b" "\<bar>t\<bar> \<le> b"
    and c: "0 < c" "\<bar>t + 1\<bar> \<le> c"
    and t: "\<bar>t\<bar> \<le> 1"
  shows "999999 / 1000000 * peak_scale / (2 * (a * b * c))
           \<le> cmod (hann_sum 4096 (2 * (t * (pi / 4096))))"
proof -
  define v where "v = pi / 4096"
  define h where "h = cmod (hann_sum 4096 (2 * (t * v)))"
  have v0: "0 < v" by (simp add: v_def)
  have v1: "v \<le> 1 / 1000" using pi_less_4 by (simp add: v_def)
  have sb: "\<bar>sin (t * v)\<bar> \<le> b * v" using v0 b(2) by (rule abs_sin_upper_scaled)
  have sc: "\<bar>sin ((t + 1) * v)\<bar> \<le> c * v" using v0 c(2) by (rule abs_sin_upper_scaled)
  have sa: "\<bar>sin ((t - 1) * v)\<bar> \<le> a * v" using v0 a(2) by (rule abs_sin_upper_scaled)
  have eq: "2 * \<bar>sin (t * v)\<bar> * \<bar>sin ((t + 1) * v)\<bar> * \<bar>sin ((t - 1) * v)\<bar> * h
              = sin (pi * 293 / 2205) * (sin v)\<^sup>2 * \<bar>cos (t * v)\<bar>"
    unfolding h_def v_def hann_sum_norm_4096 S ..
  have Pp: "2 * \<bar>sin (t * v)\<bar> * \<bar>sin ((t + 1) * v)\<bar> * \<bar>sin ((t - 1) * v)\<bar>
              \<le> 2 * (b * v) * (c * v) * (a * v)"
    using sa sb sc by (intro three_mono) simp_all
  have tv: "\<bar>t * v\<bar> \<le> 1 * (1 / 1000)"
    unfolding abs_mult using t v0 v1 by (intro mult_mono) simp_all
  have "(t * v)\<^sup>2 \<le> (1 / 1000)\<^sup>2"
    using tv by (simp only: abs_le_square_iff [symmetric])
  moreover have "(1 / 1000 :: real)\<^sup>2 = 1 / 1000000" by (simp add: power2_eq_square)
  ultimately have "(t * v)\<^sup>2 \<le> 1 / 1000000" by (simp only:)
  then have "999999 / 1000000 \<le> 1 - (t * v)\<^sup>2 / 2" by linarith
  also have "\<dots> \<le> cos (t * v)" by (rule cos_lower_quadratic)
  also have "\<dots> \<le> \<bar>cos (t * v)\<bar>" by simp
  finally have cl: "999999 / 1000000 \<le> \<bar>cos (t * v)\<bar>" .
  have qQ: "sin (pi * 293 / 2205) * (sin v)\<^sup>2 * (999999 / 1000000)
              \<le> sin (pi * 293 / 2205) * (sin v)\<^sup>2 * \<bar>cos (t * v)\<bar>"
  proof -
    have "0 \<le> sin (pi * 293 / 2205) * (sin v)\<^sup>2" using sin_peak_pos by simp
    with cl show ?thesis by (rule mult_left_mono)
  qed
  have p0: "0 < 2 * (b * v) * (c * v) * (a * v)"
    using a(1) b(1) c(1) v0 by simp
  have Bp: "999999 / 1000000 * peak_scale / (2 * (a * b * c)) * (2 * (b * v) * (c * v) * (a * v))
              \<le> sin (pi * 293 / 2205) * (sin v)\<^sup>2 * (999999 / 1000000)"
  proof -
    have "999999 / 1000000 * peak_scale / (2 * (a * b * c)) * (2 * (b * v) * (c * v) * (a * v))
          = peak_scale * v ^ 3 * (999999 / 1000000)"
      using a(1) b(1) c(1) by (simp add: field_simps power3_eq_cube)
    then show ?thesis unfolding v_def peak_scale_cube by simp
  qed
  have "999999 / 1000000 * peak_scale / (2 * (a * b * c)) \<le> h"
    using eq _ Pp qQ p0 Bp by (rule bound_lower) (simp add: h_def)
  then show ?thesis unfolding h_def v_def .
qed

subsection \<open>The bins of the windowed sine\<close>

lemma expected_bin_440: "expected_bin 440 44100 4096 = Inr 41"
proof -
  have "\<lfloor>440 * 4096 / 44100 :: real\<rfloor> = 40" by (simp add: floor_eq_iff)
  then show ?thesis by (simp add: expected_bin_def np_round_def Let_def)
qed

lemma term_split:
  "complex_of_real (sin x * w) * cis (- y)
     = (complex_of_real w * cis (x - y) - complex_of_real w * cis (- x - y)) / (2 * \<i>)"
proof -
  have "cis (x - y) = cis x * cis (- y)" "cis (- x - y) = cis (- x) * cis (- y)"
    by (simp_all add: cis_mult)
  then show ?thesis
    by (simp only: of_real_mult complex_sin_cis) (simp add: field_simps)
qed

lemma windowed_bin:
  assumes "0 < N"
  shows "(\<Sum>m<N. complex_of_real (sin (a * real m) * (1 / 2 - cos (2 * pi * real m / real N) / 2))
                  * cis (- (2 * pi * real m * real k / real N)))
           = (hann_sum N (a - 2 * pi * real k / real N)
                - hann_sum N (- a - 2 * pi * real k / real N)) / (2 * \<i>)"
proof -
  have t: "complex_of_real (sin (a * real m) * (1 / 2 - cos (2 * pi * real m / real N) / 2))
              * cis (- (2 * pi * real m * real k / real N))
           = (complex_of_real (1 / 2 - cos (2 * pi * real m / real N) / 2)
                 * cis ((a - 2 * pi * real k / real N) * real m)
               - complex_of_real (1 / 2 - cos (2 * pi * real m / real N) / 2)
                 * cis ((- a - 2 * pi * real k / real N) * real m)) / (2 * \<i>)" for m
  proof -
    have "a * real m - 2 * pi * real m * real k / real N = (a - 2 * pi * real k / real N) * real m"
      "- (a * real m) - 2 * pi * real m * real k / real N
         = (- a - 2 * pi * real k / real N) * real m"
      by (simp_all add: algebra_simps)
    then show ?thesis
      using term_split [of "a * real m" "1 / 2 - cos (2 * pi * real m / real N) / 2"
                           "2 * pi * real m * real k / real N"]
      by (simp only:)
  qed
  show ?thesis
    unfolding hann_sum_def t by (simp only: diff_divide_distrib sum_subtractf sum_divide_distrib)
qed

lemma window_nth:
  assumes "2 \<le> N" and "m < N"
  shows "(0.5 + 0.5 * cos (- pi + real m * (2 * pi / real_of_int (int N))))
           = 1 / 2 - cos (2 * pi * real m / real N) / 2"
proof -
  have e: "- pi + real m * (2 * pi / real_of_int (int N)) = 2 * pi * real m / real N - pi"
    by simp
  have "cos (2 * pi * real m / real N - pi) = - cos (2 * pi * real m / real N)"
    by (simp only: cos_diff cos_pi sin_pi)
  then show ?thesis unfolding e by simp
qed

lemma single_frame_magnitude_bins:
  fixes frequency sample_rate :: real
  assumes "2 \<le> N"
  defines "a \<equiv> 2 * pi * frequency / sample_rate"
  shows "\<exists>magnitude. single_frame_magnitude frequency sample_rate (int N) = Inr magnitude \<and>
           length magnitude = N div 2 + 1 \<and>
           (\<forall>k\<le>N div 2. magnitude ! k
               = cmod (hann_sum N (a - 2 * pi * real k / real N)
                         - hann_sum N (- a - 2 * pi * real k / real N)) / 2)"
proof -
  define sig where "sig = sine_signal frequency sample_rate (int N)"
  define win where "win = map (\<lambda>n. 0.5 + 0.5 * cos (- pi + real n * (2 * pi / real_of_int (int N)))) [0..<N]"
  define x where "x = map2 (*) sig win"
  define X where "X = take (N div 2 + 1) (dft (map complex_of_real x))"
  have ls: "length sig = N" by (simp add: sig_def sine_signal_def py_range_def)
  have lw: "length win = N" by (simp add: win_def)
  have lx: "length x = N" by (simp add: x_def ls lw)
  have gw: "get_window_hann (int N) = Inr win"
    using assms(1) by (simp add: get_window_hann_def win_def)
  have bo: "np_binop (*) sig win = Inr x" by (simp add: np_binop_def ls lw x_def)
  have le: "N div 2 + 1 \<le> length (dft (map complex_of_real x))"
    using assms(1) by (simp add: lx)
  have ps: "py_slice (dft (map complex_of_real x)) (int 0) (int 0 + int (N div 2 + 1))
          = take (N div 2 + 1) (drop 0 (dft (map complex_of_real x)))"
    by (rule py_slice_in_range) (use le in simp)
  have i: "0 + int (N div 2 + 1) = int (length x) div 2 + 1" by (simp add: lx zdiv_int)
  have sl: "py_slice (dft (map complex_of_real x)) 0 (int (length x) div 2 + 1) = X"
    using ps unfolding of_nat_0 i drop_0 X_def .
  have hs: "half_spectrum x = Inr X"
    using assms(1) by (simp add: half_spectrum_def np_fft_def sl [unfolded lx] lx)
  have m: "single_frame_magnitude frequency sample_rate (int N) = Inr (map cmod X)"
    by (simp add: single_frame_magnitude_def gw sig_def [symmetric] bo hs)
  have l: "length (map cmod X) = N div 2 + 1" using le by (simp add: X_def)
  have xm: "x ! m = sin (a * real m) * (1 / 2 - cos (2 * pi * real m / real N) / 2)"
    if "m < N" for m
  proof -
    have "sig ! m = sin (a * real m)"
      using that by (simp add: sig_def sine_signal_def py_range_def a_def)
    moreover have "win ! m = 1 / 2 - cos (2 * pi * real m / real N) / 2"
      using that window_nth [OF assms(1) that] by (simp add: win_def)
    ultimately show ?thesis using that by (simp add: x_def ls lw)
  qed
  have b: "map cmod X ! k
             = cmod (hann_sum N (a - 2 * pi * real k / real N)
                       - hann_sum N (- a - 2 * pi * real k / real N)) / 2"
    if "k \<le> N div 2" for k
  proof -
    have kN: "k < N" using that assms(1) by simp
    have N0: "0 < N" using assms(1) by simp
    have "X ! k = dft (map complex_of_real x) ! k" using that by (simp add: X_def)
    also have "\<dots> = (\<Sum>m<N. complex_of_real (x ! m) * cis (- (2 * pi * real m * real k / real N)))"
      using kN by (simp add: nth_dft lx)
    also have "\<dots> = (\<Sum>m<N. complex_of_real (sin (a * real m) * (1 / 2 - cos (2 * pi * real m / real N) / 2))
                               * cis (- (2 * pi * real m * real k / real N)))"
      by (rule sum.cong) (simp_all add: xm)
    also have "\<dots> = (hann_sum N (a - 2 * pi * real k / real N)
                        - hann_sum N (- a - 2 * pi * real k / real N)) / (2 * \<i>)"
      using N0 by (rule windowed_bin)
    finally have "X ! k = (hann_sum N (a - 2 * pi * real k / real N)
                        - hann_sum N (- a - 2 * pi * real k / real N)) / (2 * \<i>)" .
    moreover have "k < length X" using that le by (simp add: X_def)
    ultimately show ?thesis by (simp add: norm_divide norm_mult)
  qed
  from m l b show ?thesis by blast
qed

subsection \<open>Bin 41 dominates\<close>

lemma positive_term_peak:
  assumes "k = 41"
  shows "19 / 5 * peak_scale
           \<le> cmod (hann_sum 4096 (2 * ((90112 / 2205 - real k) * (pi / 4096))))"
proof -
  have "999999 / 1000000 * peak_scale / (2 * (2498 / 2205 * (293 / 2205) * (1912 / 2205)))
          \<le> cmod (hann_sum 4096 (2 * ((90112 / 2205 - real k) * (pi / 4096))))"
    using abs_sin_positive_bin [of k]
    by (rule hann_sum_lower) (simp_all add: assms)
  moreover have "19 / 5 * peak_scale
      \<le> 999999 / 1000000 * peak_scale / (2 * (2498 / 2205 * (293 / 2205) * (1912 / 2205)))"
    using peak_scale_pos by simp
  ultimately show ?thesis by (rule order_trans [rotated])
qed

lemma positive_term_near:
  assumes "k = 40 \<or> k = 42"
  shows "cmod (hann_sum 4096 (2 * ((90112 / 2205 - real k) * (pi / 4096))))
           \<le> 12 / 5 * peak_scale"
proof -
  from assms show ?thesis
  proof
    assume k: "k = 40"
    have "cmod (hann_sum 4096 (2 * ((90112 / 2205 - real k) * (pi / 4096))))
            \<le> peak_scale / (2 * (599 / 600) ^ 3 * (293 / 2205 * (1912 / 2205) * (4117 / 2205)))"
      using abs_sin_positive_bin [of k]
      by (rule hann_sum_upper) (simp_all add: k)
    moreover have "peak_scale / (2 * (599 / 600) ^ 3 * (293 / 2205 * (1912 / 2205) * (4117 / 2205)))
                     \<le> 12 / 5 * peak_scale"
      using peak_scale_pos by (simp add: power3_eq_cube)
    ultimately show ?thesis by (rule order_trans)
  next
    assume k: "k = 42"
    have "cmod (hann_sum 4096 (2 * ((90112 / 2205 - real k) * (pi / 4096))))
            \<le> peak_scale / (2 * (599 / 600) ^ 3 * (4703 / 2205 * (2498 / 2205) * (293 / 2205)))"
      using abs_sin_positive_bin [of k]
      by (rule hann_sum_upper) (simp_all add: k)
    moreover have "peak_scale / (2 * (599 / 600) ^ 3 * (4703 / 2205 * (2498 / 2205) * (293 / 2205)))
                     \<le> 12 / 5 * peak_scale"
      using peak_scale_pos by (simp add: power3_eq_cube)
    ultimately show ?thesis by (rule order_trans)
  qed
qed

lemma far_term:
  fixes t :: real
  assumes "\<bar>sin (pi * t)\<bar> = sin (pi * 293 / 2205)" and "9 / 5 \<le> \<bar>t\<bar>" and "\<bar>t\<bar> \<le> 4000"
  shows "cmod (hann_sum 4096 (2 * (t * (pi / 4096)))) \<le> 9 / 20 * peak_scale"
proof -
  have "cmod (hann_sum 4096 (2 * (t * (pi / 4096))))
          \<le> peak_scale / (2 * (599 / 600) ^ 3 * (4 / 5 * (9 / 5) * (4 / 5)))"
    using assms(1)
  proof (rule hann_sum_upper)
    show "4 / 5 \<le> \<bar>t - 1\<bar>" using assms(2) by linarith
    show "4 / 5 \<le> \<bar>t + 1\<bar>" using assms(2) by linarith
  qed (use assms in simp_all)
  moreover have "peak_scale / (2 * (599 / 600) ^ 3 * (4 / 5 * (9 / 5) * (4 / 5)))
                   \<le> 9 / 20 * peak_scale"
    using peak_scale_pos by (simp add: power3_eq_cube)
  ultimately show ?thesis by (rule order_trans)
qed

text \<open>
  C8. For the 440 Hz sine sampled at 44100 Hz, frame size 4096 and the Hann window, the
  analysis returns 2049 magnitudes, the magnitude of bin 41 is strictly larger than that
  of every other bin, and \<^verbatim>\<open>expected_bin\<close>, which is
  \<^verbatim>\<open>round(440 * 4096 / 44100)\<close>, is 41. Samples are real numbers here.
\<close>

theorem peak_bin_440:
  "\<exists>magnitude. single_frame_magnitude 440 44100 4096 = Inr magnitude \<and>
     length magnitude = 2049 \<and>
     (\<forall>k<2049. k \<noteq> 41 \<longrightarrow> magnitude ! k < magnitude ! 41) \<and>
     expected_bin 440 44100 4096 = Inr 41"
proof -
  have N: "(2::nat) \<le> 4096" by simp
  from single_frame_magnitude_bins [OF N, of 440 44100]
  obtain magnitude where m: "single_frame_magnitude 440 44100 (int 4096) = Inr magnitude"
    and l: "length magnitude = 4096 div 2 + 1"
    and b: "\<And>k. k \<le> 4096 div 2 \<Longrightarrow>
              magnitude ! k
                = cmod (hann_sum 4096 (2 * pi * 440 / 44100 - 2 * pi * real k / real 4096)
                          - hann_sum 4096 (- (2 * pi * 440 / 44100) - 2 * pi * real k / real 4096)) / 2"
    by blast
  define Hp where "Hp k = hann_sum 4096 (2 * ((90112 / 2205 - real k) * (pi / 4096)))" for k
  define Hm where "Hm k = hann_sum 4096 (2 * ((- (90112 / 2205 + real k)) * (pi / 4096)))" for k
  have ap: "2 * pi * 440 / 44100 - 2 * pi * real k / real 4096
              = 2 * ((90112 / 2205 - real k) * (pi / 4096))" for k
    by (simp add: field_simps)
  have am: "- (2 * pi * 440 / 44100) - 2 * pi * real k / real 4096
              = 2 * ((- (90112 / 2205 + real k)) * (pi / 4096))" for k
    by (simp add: field_simps)
  have mk: "magnitude ! k = cmod (Hp k - Hm k) / 2" if "k < 2049" for k
  proof -
    have "k \<le> 4096 div 2" using that by simp
    then show ?thesis using b [of k] unfolding ap am Hp_def Hm_def by (simp only:)
  qed
  have Hm_le: "cmod (Hm k) \<le> 9 / 20 * peak_scale" if "k < 2049" for k
    unfolding Hm_def using abs_sin_negative_bin [of k]
    by (rule far_term) (use that in simp_all)
  have Hp_le: "cmod (Hp k) \<le> 12 / 5 * peak_scale" if "k < 2049" and "k \<noteq> 41" for k
  proof (cases "k = 40 \<or> k = 42")
    case True
    then show ?thesis unfolding Hp_def by (rule positive_term_near)
  next
    case False
    with that have "k \<le> 39 \<or> 43 \<le> k" by arith
    then have "9 / 5 \<le> \<bar>90112 / 2205 - real k\<bar>" by auto
    moreover have "\<bar>90112 / 2205 - real k\<bar> \<le> 4000" using that(1) by auto
    ultimately have "cmod (Hp k) \<le> 9 / 20 * peak_scale"
      unfolding Hp_def using abs_sin_positive_bin [of k] by (intro far_term)
    then show ?thesis using peak_scale_pos by simp
  qed
  have Hp_41: "19 / 5 * peak_scale \<le> cmod (Hp 41)"
    unfolding Hp_def by (rule positive_term_peak) simp
  have lo: "67 / 40 * peak_scale \<le> magnitude ! 41"
  proof -
    have "cmod (Hp 41) - cmod (Hm 41) \<le> cmod (Hp 41 - Hm 41)" by (rule norm_triangle_ineq2)
    moreover have "cmod (Hm 41) \<le> 9 / 20 * peak_scale" by (rule Hm_le) simp
    moreover have "magnitude ! 41 = cmod (Hp 41 - Hm 41) / 2" by (rule mk) simp
    ultimately show ?thesis using Hp_41 by linarith
  qed
  have hi: "magnitude ! k \<le> 57 / 40 * peak_scale"
    if "k < 2049" and "k \<noteq> 41" for k
  proof -
    have "cmod (Hp k - Hm k) \<le> cmod (Hp k) + cmod (Hm k)" by (rule norm_triangle_ineq4)
    with Hp_le [OF that] Hm_le [OF that(1)] mk [OF that(1)] show ?thesis by linarith
  qed
  have "magnitude ! k < magnitude ! 41" if "k < 2049" and "k \<noteq> 41" for k
    using hi [OF that] lo peak_scale_pos by linarith
  moreover have "single_frame_magnitude 440 44100 4096 = Inr magnitude" using m by simp
  moreover have "length magnitude = 2049" using l by simp
  ultimately show ?thesis using expected_bin_440 by blast
qed

theorem peak_bin_440_witness:
  "\<exists>magnitude. single_frame_magnitude 440 44100 4096 = Inr magnitude \<and>
     (40::nat) < 2049 \<and> (40::nat) \<noteq> 41 \<and> magnitude ! 40 < magnitude ! 41"
proof -
  from peak_bin_440 obtain magnitude
    where "single_frame_magnitude 440 44100 4096 = Inr magnitude"
      and "\<forall>k<2049. k \<noteq> 41 \<longrightarrow> magnitude ! k < magnitude ! 41"
    by blast
  moreover from this(2) have "magnitude ! 40 < magnitude ! 41" by simp
  ultimately show ?thesis by simp
qed

section \<open>The chunk tensor and its padding\<close>

lemma shape_mk3 [simp]: "shape (mk3 sh g) = sh"
  by (cases sh) (simp add: mk3_def)

lemma dim_mk3 [simp]:
  "dim0 (mk3 (C, F, T) g) = C" "dim1 (mk3 (C, F, T) g) = F" "dim2 (mk3 (C, F, T) g) = T"
  by (simp_all add: dim0_def dim1_def dim2_def)

lemma item_mk3 [simp]:
  "c < C \<Longrightarrow> f < F \<Longrightarrow> t < T \<Longrightarrow> item (mk3 (C, F, T) g) c f t = g c f t"
  by (simp add: mk3_def item_def)

lemma dims_of_shape:
  "shape a = (C, F, T) \<Longrightarrow> dim0 a = C \<and> dim1 a = F \<and> dim2 a = T"
  by (simp add: dim0_def dim1_def dim2_def)

lemma slice_axis2_in_range:
  assumes "shape a = (C, F, T)" and "0 \<le> lo" and "lo \<le> hi" and "hi \<le> int T"
  shows "slice_axis2 a lo hi = mk3 (C, F, nat (hi - lo)) (\<lambda>c f t. item a c f (nat lo + t))"
proof -
  have d: "dim0 a = C" "dim1 a = F" "dim2 a = T" using dims_of_shape [OF assms(1)] by simp_all
  have l: "slice_bound T lo = nat lo" using assms by (simp add: slice_bound_def)
  have h: "slice_bound T hi = nat hi" using assms by (simp add: slice_bound_def)
  have "nat hi - nat lo = nat (hi - lo)" using assms by simp
  then show ?thesis by (simp add: slice_axis2_def d l h Let_def)
qed

lemma chunk_input_padded:
  assumes "shape real_part = (C, F, T)" and "shape imag_part = (C, F, T)" and "1 \<le> C"
    and "0 \<le> start_idx" and "start_idx \<le> end_idx" and "end_idx \<le> int T"
    and "end_idx - start_idx < chunk_size"
  shows "\<exists>input_data.
     chunk_input real_part imag_part C chunk_size start_idx end_idx = Inr input_data \<and>
     shape input_data = (4, F, nat chunk_size) \<and>
     (\<forall>p<4. \<forall>f<F. \<forall>t<nat chunk_size.
        item input_data p f t =
          (if t < nat (end_idx - start_idx)
           then item (if even p then real_part else imag_part)
                  (if p < 2 then 0 else if C > 1 then 1 else 0) f (nat start_idx + t)
           else 0))"
proof -
  define e where "e = nat (end_idx - start_idx)"
  define w where "w = nat (chunk_size - int e)"
  define right :: nat where "right = (if C > 1 then 1 else 0)"
  define rc where "rc = mk3 (C, F, e) (\<lambda>c f t. item real_part c f (nat start_idx + t))"
  define ic where "ic = mk3 (C, F, e) (\<lambda>c f t. item imag_part c f (nat start_idx + t))"
  have sr: "slice_axis2 real_part start_idx end_idx = rc"
    unfolding rc_def e_def using assms(1,4,5,6) by (rule slice_axis2_in_range)
  have si: "slice_axis2 imag_part start_idx end_idx = ic"
    unfolding ic_def e_def using assms(2,4,5,6) by (rule slice_axis2_in_range)
  have lt: "int e < chunk_size" using assms(5,7) by (simp add: e_def)
  have ew: "e + w = nat chunk_size" using lt by (simp add: w_def)
  have rl: "right < C" using assms(3) by (simp add: right_def)
  define x where "x = mk3 (4, F, e + w)
                (\<lambda>p f t. if p = 0 then item (pad_axis2 rc w) 0 f t
                         else if p = 1 then item (pad_axis2 ic w) 0 f t
                         else if p = 2 then item (pad_axis2 rc w) right f t
                         else item (pad_axis2 ic w) right f t)"
  have dr: "dim0 (pad_axis2 rc w) = C" "dim1 (pad_axis2 rc w) = F" "dim2 (pad_axis2 rc w) = e + w"
    by (simp_all add: pad_axis2_def rc_def)
  have di: "dim0 (pad_axis2 ic w) = C" "dim1 (pad_axis2 ic w) = F" "dim2 (pad_axis2 ic w) = e + w"
    by (simp_all add: pad_axis2_def ic_def)
  have st: "stack_input (pad_axis2 rc w) (pad_axis2 ic w) C = Inr x"
    unfolding stack_input_def Let_def dr di right_def [symmetric] x_def
    using rl by simp
  have d2: "dim2 rc = e" by (simp add: rc_def)
  have ci: "chunk_input real_part imag_part C chunk_size start_idx end_idx = Inr x"
    unfolding chunk_input_def Let_def sr si d2 w_def [symmetric]
    using lt st by simp
  have sh: "shape x = (4, F, nat chunk_size)" by (simp add: x_def ew)
  have it: "item x p f t =
          (if t < e
           then item (if even p then real_part else imag_part)
                  (if p < 2 then 0 else if C > 1 then 1 else 0) f (nat start_idx + t)
           else 0)"
    if "p < 4" "f < F" "t < nat chunk_size" for p f t
  proof -
    from that(1) consider "p = 0" | "p = 1" | "p = 2" | "p = 3" by linarith
    then show ?thesis
    proof cases
      case 1
      then show ?thesis using that assms(3) ew
        by (simp add: x_def pad_axis2_def rc_def)
    next
      case 2
      then show ?thesis using that assms(3) ew
        by (simp add: x_def pad_axis2_def ic_def)
    next
      case 3
      then show ?thesis using that rl ew
        by (simp add: x_def pad_axis2_def rc_def) (simp add: right_def)
    next
      case 4
      then show ?thesis using that rl ew
        by (simp add: x_def pad_axis2_def ic_def) (simp add: right_def)
    qed
  qed
  from ci sh it show ?thesis unfolding e_def by blast
qed


lemma chunk_input_full:
  assumes "shape real_part = (C, F, T)" and "shape imag_part = (C, F, T)" and "1 \<le> C"
    and "0 \<le> start_idx" and "start_idx \<le> end_idx" and "end_idx \<le> int T"
    and "end_idx - start_idx = chunk_size"
  shows "\<exists>input_data.
     chunk_input real_part imag_part C chunk_size start_idx end_idx = Inr input_data \<and>
     shape input_data = (4, F, nat chunk_size) \<and>
     (\<forall>p<4. \<forall>f<F. \<forall>t<nat chunk_size.
        item input_data p f t =
          (if t < nat (end_idx - start_idx)
           then item (if even p then real_part else imag_part)
                  (if p < 2 then 0 else if C > 1 then 1 else 0) f (nat start_idx + t)
           else 0))"
proof -
  define e where "e = nat (end_idx - start_idx)"
  define right :: nat where "right = (if C > 1 then 1 else 0)"
  define rc where "rc = mk3 (C, F, e) (\<lambda>c f t. item real_part c f (nat start_idx + t))"
  define ic where "ic = mk3 (C, F, e) (\<lambda>c f t. item imag_part c f (nat start_idx + t))"
  have sr: "slice_axis2 real_part start_idx end_idx = rc"
    unfolding rc_def e_def using assms(1,4,5,6) by (rule slice_axis2_in_range)
  have si: "slice_axis2 imag_part start_idx end_idx = ic"
    unfolding ic_def e_def using assms(2,4,5,6) by (rule slice_axis2_in_range)
  have eq: "int e = chunk_size" using assms(5,7) by (simp add: e_def)
  have ec: "e = nat chunk_size" using assms(7) by (simp add: e_def)
  have rl: "right < C" using assms(3) by (simp add: right_def)
  define x where "x = mk3 (4, F, e)
                (\<lambda>p f t. if p = 0 then item rc 0 f t
                         else if p = 1 then item ic 0 f t
                         else if p = 2 then item rc right f t
                         else item ic right f t)"
  have dr: "dim0 rc = C" "dim1 rc = F" "dim2 rc = e" by (simp_all add: rc_def)
  have di: "dim0 ic = C" "dim1 ic = F" "dim2 ic = e" by (simp_all add: ic_def)
  have st: "stack_input rc ic C = Inr x"
    unfolding stack_input_def Let_def dr di right_def [symmetric] x_def
    using rl by simp
  have ci: "chunk_input real_part imag_part C chunk_size start_idx end_idx = Inr x"
    unfolding chunk_input_def Let_def sr si dr
    using eq st by simp
  have sh: "shape x = (4, F, nat chunk_size)" by (simp add: x_def ec)
  have it: "item x p f t =
          (if t < e
           then item (if even p then real_part else imag_part)
                  (if p < 2 then 0 else if C > 1 then 1 else 0) f (nat start_idx + t)
           else 0)"
    if "p < 4" "f < F" "t < nat chunk_size" for p f t
  proof -
    from that(1) consider "p = 0" | "p = 1" | "p = 2" | "p = 3" by linarith
    then show ?thesis
    proof cases
      case 1
      then show ?thesis using that assms(3) ec
        by (simp add: x_def rc_def)
    next
      case 2
      then show ?thesis using that assms(3) ec
        by (simp add: x_def ic_def)
    next
      case 3
      then show ?thesis using that rl ec
        by (simp add: x_def rc_def) (simp add: right_def)
    next
      case 4
      then show ?thesis using that rl ec
        by (simp add: x_def ic_def) (simp add: right_def)
    qed
  qed
  from ci sh it show ?thesis unfolding e_def by blast
qed

lemma chunk_input_general:
  assumes "shape real_part = (C, F, T)" and "shape imag_part = (C, F, T)" and "1 \<le> C"
    and "0 \<le> start_idx" and "start_idx \<le> end_idx" and "end_idx \<le> int T"
    and "end_idx - start_idx \<le> chunk_size"
  shows "\<exists>input_data.
     chunk_input real_part imag_part C chunk_size start_idx end_idx = Inr input_data \<and>
     shape input_data = (4, F, nat chunk_size) \<and>
     (\<forall>p<4. \<forall>f<F. \<forall>t<nat chunk_size.
        item input_data p f t =
          (if t < nat (end_idx - start_idx)
           then item (if even p then real_part else imag_part)
                  (if p < 2 then 0 else if C > 1 then 1 else 0) f (nat start_idx + t)
           else 0))"
proof (cases "end_idx - start_idx < chunk_size")
  case True
  with assms(1-6) show ?thesis by (rule chunk_input_padded)
next
  case False
  with assms(7) have "end_idx - start_idx = chunk_size" by simp
  with assms(1-6) show ?thesis by (rule chunk_input_full)
qed

text \<open>
  C5. For every time slice \<^verbatim>\<open>start_idx:end_idx\<close> of the spectrogram that is shorter
  than \<^verbatim>\<open>chunk_size\<close>, the tensor built for the engine has exactly
  \<^verbatim>\<open>chunk_size\<close> time steps; its first \<open>end_idx - start_idx\<close> time steps are the
  slice itself (nothing is put before it), and every later time step is zero in each of
  the four planes (left real, left imaginary, right real, right imaginary).
\<close>

theorem chunk_input_padding:
  assumes "shape real_part = (C, F, T)" and "shape imag_part = (C, F, T)" and "1 \<le> C"
    and "0 \<le> start_idx" and "start_idx \<le> end_idx" and "end_idx \<le> int T"
    and "end_idx - start_idx < chunk_size"
  shows "\<exists>input_data.
     chunk_input real_part imag_part C chunk_size start_idx end_idx = Inr input_data \<and>
     shape input_data = (4, F, nat chunk_size) \<and>
     (\<forall>p<4. \<forall>f<F. \<forall>t<nat chunk_size.
        item input_data p f t =
          (if t < nat (end_idx - start_idx)
           then item (if even p then real_part else imag_part)
                  (if p < 2 then 0 else if C > 1 then 1 else 0) f (nat start_idx + t)
           else 0))"
  using assms by (rule chunk_input_padded)

theorem chunk_input_padding_witness:
  "shape (mk3 (1, 1, 3) (\<lambda>c f t. 5 :: real)) = (1, 1, 3) \<and>
   shape (mk3 (1, 1, 3) (\<lambda>c f t. 7 :: real)) = (1, 1, 3) \<and>
   (1::nat) \<le> 1 \<and> (0::int) \<le> 2 \<and> (2::int) \<le> 3 \<and> (3::int) \<le> int 3 \<and> (3::int) - 2 < 2 \<and>
   (\<exists>input_data.
      chunk_input (mk3 (1, 1, 3) (\<lambda>c f t. 5)) (mk3 (1, 1, 3) (\<lambda>c f t. 7)) 1 2 2 3 = Inr input_data \<and>
      shape input_data = (4, 1, 2) \<and>
      item input_data 0 0 0 = 5 \<and> item input_data 1 0 0 = 7 \<and>
      item input_data 0 0 1 = 0 \<and> item input_data 1 0 1 = 0 \<and>
      item input_data 2 0 1 = 0 \<and> item input_data 3 0 1 = 0)"
proof -
  have h: "shape (mk3 (1, 1, 3) (\<lambda>c f t. 5 :: real)) = (1, 1, 3)"
    "shape (mk3 (1, 1, 3) (\<lambda>c f t. 7 :: real)) = (1, 1, 3)"
    "(1::nat) \<le> 1" "(0::int) \<le> 2" "(2::int) \<le> 3" "(3::int) \<le> int 3" "(3::int) - 2 < 2"
    by simp_all
  from chunk_input_padding [OF h] obtain x where
    c: "chunk_input (mk3 (1, 1, 3) (\<lambda>c f t. 5)) (mk3 (1, 1, 3) (\<lambda>c f t. 7)) 1 2 2 3 = Inr x"
    and s: "shape x = (4, 1, nat 2)"
    and i: "\<forall>p<4. \<forall>f<1. \<forall>t<nat 2. item x p f t =
          (if t < nat (3 - 2)
           then item (if even p then mk3 (1, 1, 3) (\<lambda>c f t. 5) else mk3 (1, 1, 3) (\<lambda>c f t. 7 :: real))
                  (if p < 2 then 0 else if (1::nat) > 1 then 1 else 0) f (nat 2 + t)
           else 0)"
    by blast
  have "item x 0 0 0 = 5" "item x 1 0 0 = 7" "item x 0 0 1 = 0" "item x 1 0 1 = 0"
    "item x 2 0 1 = 0" "item x 3 0 1 = 0"
    using i [rule_format, of 0 0 0] i [rule_format, of 1 0 0] i [rule_format, of 0 0 1]
      i [rule_format, of 1 0 1] i [rule_format, of 2 0 1] i [rule_format, of 3 0 1]
    by simp_all
  with c s h show ?thesis by simp
qed

section \<open>The chunked adapter returns a mask over all time frames\<close>

lemma num_chunks_pos:
  fixes k T :: nat
  assumes "0 < k" and "1 \<le> T"
  shows "(T + k - 1) div k = (T - 1) div k + 1"
proof -
  have "T + k - 1 = (T - 1) + 1 * k" using assms by simp
  then have "(T + k - 1) div k = ((T - 1) + 1 * k) div k" by simp
  also have "\<dots> = (T - 1) div k + 1" using assms(1) by simp
  finally show ?thesis .
qed

lemma chunk_start_lt:
  fixes k T i :: nat
  assumes "0 < k" and "i < (T + k - 1) div k"
  shows "i * k < T"
proof -
  have T: "1 \<le> T"
  proof (rule ccontr)
    assume "\<not> 1 \<le> T"
    then have "T = 0" by simp
    with assms show False by simp
  qed
  from assms(2) have "i \<le> (T - 1) div k" using num_chunks_pos [OF assms(1) T] by simp
  then have "i * k \<le> (T - 1) div k * k" by simp
  also have "\<dots> \<le> T - 1" by simp
  finally show ?thesis using T by simp
qed

lemma chunk_full:
  fixes k T i :: nat
  assumes "0 < k" and "i + 1 < (T + k - 1) div k"
  shows "(i + 1) * k \<le> T"
  using chunk_start_lt [OF assms] by simp

lemma num_chunks_ceiling:
  fixes k T :: nat
  assumes "0 < k"
  shows "\<lceil>real T / real_of_int (int k)\<rceil> = int ((T + k - 1) div k)"
proof -
  define q where "q = (T + k - 1) div k"
  have "q * k \<le> T + k - 1" by (simp add: q_def)
  have lo: "T \<le> q * k"
  proof -
    have "T + k - 1 < (q + 1) * k"
      unfolding q_def using dividend_less_times_div [of k "T + k - 1"] assms
      by (simp add: algebra_simps)
    then show ?thesis using assms by simp
  qed
  have hi: "q * k < T + k" using \<open>q * k \<le> T + k - 1\<close> assms by simp
  have a: "real T / real k \<le> real q"
    using lo assms by (simp add: field_simps) (metis of_nat_le_iff of_nat_mult mult.commute)
  have b: "real q - 1 < real T / real k"
  proof -
    have "real (q * k) < real (T + k)" using hi by (simp only: of_nat_less_iff)
    then show ?thesis using assms by (simp add: field_simps)
  qed
  have "\<lceil>real T / real k\<rceil> = int q"
    using a b by (simp add: ceiling_unique)
  then show ?thesis by (simp add: q_def)
qed


lemma shape_truncate_bins:
  assumes "shape s = (C, F, T)"
  shows "shape (truncate_bins (np_map h s) F) = (C, min F 2048, T)"
  using assms dims_of_shape [of "np_map h s" C F T]
  by (auto simp: truncate_bins_def np_map_def slice_axis1_def)

lemma item_truncate_bins:
  assumes "shape s = (C, F, T)" and "c < C" and "f < min F 2048" and "t < T"
  shows "item (truncate_bins (np_map h s) F) c f t = h (item s c f t)"
  using assms dims_of_shape [of "np_map h s" C F T]
  by (auto simp: truncate_bins_def np_map_def slice_axis1_def)

lemma engine_input_ok:
  assumes s: "shape s = (C, F, T)" and C: "1 \<le> C" and k: "0 < k" and i: "i * k < T"
  shows "\<exists>x. engine_input s (int k) (int i) = Inr x \<and>
          shape x = (4, min F 2048, k) \<and>
          (\<forall>p<4. \<forall>f<min F 2048. \<forall>t<k.
             item x p f t =
               (if i * k + t < T
                then (if even p then Re else Im)
                       (item s (if p < 2 then 0 else if C > 1 then 1 else 0) f (i * k + t))
                else 0))"
proof -
  define rp where "rp = truncate_bins (np_map Re s) F"
  define ip where "ip = truncate_bins (np_map Im s) F"
  define e where "e = min ((i + 1) * k) T"
  have d: "dim0 s = C" "dim1 s = F" "dim2 s = T" using dims_of_shape [OF s] by simp_all
  have sr: "shape rp = (C, min F 2048, T)" unfolding rp_def using s by (rule shape_truncate_bins)
  have si: "shape ip = (C, min F 2048, T)" unfolding ip_def using s by (rule shape_truncate_bins)
  have st: "int i * int k = int (i * k)" by simp
  have "(int i + 1) * int k = int ((i + 1) * k)" by (simp add: algebra_simps)
  then have en: "min ((int i + 1) * int k) (int T) = int e"
    by (simp only: e_def of_nat_min)
  have n2: "i * k \<le> e" using i by (simp add: e_def)
  have n3: "e \<le> T" by (simp add: e_def)
  have n4: "e \<le> i * k + k" by (simp add: e_def)
  have "min (k + a) T - a = min k (T - a)" if "a < T" for a :: nat
    using that by arith
  from this [OF i] have n5: "e - i * k = min k (T - i * k)" by (simp add: e_def)
  have h1: "0 \<le> int (i * k)" by (simp only: of_nat_0_le_iff)
  have h2: "int (i * k) \<le> int e" using n2 by (simp only: of_nat_le_iff)
  have h3: "int e \<le> int T" using n3 by (simp only: of_nat_le_iff)
  have df: "int e - int (i * k) = int (e - i * k)" using n2 by (simp only: of_nat_diff)
  have "int (e - i * k) \<le> int k" using n4 by (simp only: of_nat_le_iff)
  then have h4: "int e - int (i * k) \<le> int k" by (simp only: df)
  have ne: "nat (int e - int (i * k)) = min k (T - i * k)"
    by (simp only: df nat_int n5)
  from chunk_input_general [OF sr si C h1 h2 h3 h4, unfolded ne nat_int] obtain x where
    c: "chunk_input rp ip C (int k) (int (i * k)) (int e) = Inr x"
    and sh: "shape x = (4, min F 2048, k)"
    and it: "\<forall>p<4. \<forall>f<min F 2048. \<forall>t<k. item x p f t =
          (if t < min k (T - i * k)
           then item (if even p then rp else ip)
                  (if p < 2 then 0 else if C > 1 then 1 else 0) f (i * k + t)
           else 0)"
    by blast
  have ei: "engine_input s (int k) (int i) = Inr x"
    unfolding engine_input_def d st en rp_def [symmetric] ip_def [symmetric] by (rule c)
  have "item x p f t =
               (if i * k + t < T
                then (if even p then Re else Im)
                       (item s (if p < 2 then 0 else if C > 1 then 1 else 0) f (i * k + t))
                else 0)"
    if "p < 4" "f < min F 2048" "t < k" for p f t
  proof (cases "i * k + t < T")
    case True
    then have a: "t < min k (T - i * k)" using that by arith
    have ch: "(if p < 2 then 0 else if C > 1 then 1 else 0) < C" using C by simp
    have "item (if even p then rp else ip) (if p < 2 then 0 else if C > 1 then 1 else 0) f (i * k + t)
          = (if even p then Re else Im) (item s (if p < 2 then 0 else if C > 1 then 1 else 0) f (i * k + t))"
      using item_truncate_bins [OF s ch that(2) True, of Re]
        item_truncate_bins [OF s ch that(2) True, of Im]
      by (simp add: rp_def ip_def)
    with it that a True show ?thesis by simp
  next
    case False
    then have "\<not> t < min k (T - i * k)" by arith
    with it that False show ?thesis by simp
  qed
  with ei sh show ?thesis by blast
qed


lemma process_chunk_ok:
  assumes s: "shape s = (C, F, T)" and C: "1 \<le> C" and k: "0 < k" and i: "i * k < T"
    and inf: "\<forall>x. shape (infer x) = (4, Fo, k)"
  shows "\<exists>m. process_chunk infer (truncate_bins (np_map Re s) F) (truncate_bins (np_map Im s) F)
               C T (int k) (int i) = Inr m \<and>
             chunk_spec infer s Fo k i m"
proof -
  define e where "e = min k (T - i * k)"
  have d: "dim0 s = C" "dim1 s = F" "dim2 s = T" using dims_of_shape [OF s] by simp_all
  from engine_input_ok [OF s C k i] obtain x where
    ei: "engine_input s (int k) (int i) = Inr x"
    and sx: "shape x = (4, min F 2048, k)"
    and ix: "\<forall>p<4. \<forall>f<min F 2048. \<forall>t<k.
             item x p f t =
               (if i * k + t < T
                then (if even p then Re else Im)
                       (item s (if p < 2 then 0 else if C > 1 then 1 else 0) f (i * k + t))
                else 0)"
    by blast
  have ci: "chunk_input (truncate_bins (np_map Re s) F) (truncate_bins (np_map Im s) F) C (int k)
              (int i * int k) (min ((int i + 1) * int k) (int T)) = Inr x"
    using ei by (simp only: engine_input_def d)
  define cm where "cm = mk3 (2, Fo, k)
     (\<lambda>c f t. Complex (item (infer x) (2 * c) f t) (item (infer x) (2 * c + 1) f t))"
  have di: "dim0 (infer x) = 4" "dim1 (infer x) = Fo" "dim2 (infer x) = k"
    using dims_of_shape [OF inf [rule_format, of x]] by simp_all
  have cx: "complex_mask (infer x) = Inr cm"
    by (simp add: complex_mask_def di cm_def)
  have "min (k + a) T - a = min k (T - a)" if "a < T" for a :: nat
    using that by arith
  from this [OF i] have n5: "min ((i + 1) * k) T - i * k = e" by (simp add: e_def)
  have n2: "i * k \<le> min ((i + 1) * k) T" using i by simp
  have "(int i + 1) * int k = int ((i + 1) * k)" by (simp add: algebra_simps)
  then have en: "min ((int i + 1) * int k) (int T) = int (min ((i + 1) * k) T)"
    by (simp only: of_nat_min)
  have st: "int i * int k = int (i * k)" by simp
  have ext: "min ((int i + 1) * int k) (int T) - int i * int k = int e"
    unfolding en st using n2 n5 by (simp only: of_nat_diff [symmetric])
  define m where "m = (if int e < int k then slice_axis2 cm 0 (int e) else cm)"
  have pc: "process_chunk infer (truncate_bins (np_map Re s) F) (truncate_bins (np_map Im s) F)
               C T (int k) (int i) = Inr m"
    by (simp only: process_chunk_def Let_def ci sum.case cx ext m_def)
  have ek: "e \<le> k" by (simp add: e_def)
  have scm: "shape cm = (2, Fo, k)" by (simp add: cm_def)
  have m2: "m = (if e < k then mk3 (2, Fo, e) (\<lambda>c f t. item cm c f (0 + t)) else cm)"
  proof (cases "e < k")
    case True
    have "slice_axis2 cm 0 (int e) = mk3 (2, Fo, nat (int e - 0)) (\<lambda>c f t. item cm c f (nat 0 + t))"
      using scm by (rule slice_axis2_in_range) (use ek in simp_all)
    with True show ?thesis by (simp add: m_def)
  next
    case False
    then show ?thesis by (simp add: m_def)
  qed
  have sm: "shape m = (2, Fo, e)" using ek by (auto simp: m2 cm_def)
  have im: "item m c f t = Complex (item (infer x) (2 * c) f t) (item (infer x) (2 * c + 1) f t)"
    if "c < 2" "f < Fo" "t < e" for c f t
    using that ek by (auto simp: m2 cm_def)
  have "chunk_spec infer s Fo k i m"
    unfolding chunk_spec_def d e_def [symmetric] using ei sx ix sm im by blast
  with pc show ?thesis by blast
qed

lemma chunk_loop_ok:
  assumes "\<forall>i\<in>set ks. \<exists>m. process_chunk infer rp ip C T cs (int i) = Inr m \<and> P i m"
  shows "\<exists>ms. chunk_loop infer rp ip C T cs (map int ks) = Inr ms \<and> length ms = length ks \<and>
              (\<forall>j<length ks. P (ks ! j) (ms ! j))"
  using assms
proof (induction ks)
  case Nil
  then show ?case by simp
next
  case (Cons i ks)
  from Cons.prems obtain m where m: "process_chunk infer rp ip C T cs (int i) = Inr m" "P i m"
    by auto
  from Cons obtain ms where ms: "chunk_loop infer rp ip C T cs (map int ks) = Inr ms"
    "length ms = length ks" "\<forall>j<length ks. P (ks ! j) (ms ! j)"
    by auto
  have "chunk_loop infer rp ip C T cs (map int (i # ks)) = Inr (m # ms)"
    by (simp add: m ms)
  moreover have "length (m # ms) = length (i # ks)" using ms by simp
  moreover have "P ((i # ks) ! j) ((m # ms) ! j)" if "j < length (i # ks)" for j
    using that m ms by (cases j) auto
  ultimately show ?case by blast
qed

lemma cat_item_div_mod:
  assumes "0 < k" and "ms \<noteq> []" and "\<forall>j<length ms. dim2 (ms ! j) \<le> k"
    and "\<forall>j. j + 1 < length ms \<longrightarrow> dim2 (ms ! j) = k"
    and "t < sum_list (map dim2 ms)"
  shows "cat_item ms c f t = item (ms ! (t div k)) c f (t mod k)"
  using assms(2-5)
proof (induction ms arbitrary: t rule: list_nonempty_induct)
  case (single m)
  then have "t < k" by simp
  then show ?case by simp
next
  case (cons m ms)
  from cons.hyps obtain m' ms' where ms: "ms = m' # ms'" by (cases ms) auto
  from cons.prems(2) [rule_format, of 0] cons.hyps have dm: "dim2 m = k" by simp
  show ?case
  proof (cases "t < k")
    case True
    then show ?thesis by (simp add: ms dm)
  next
    case False
    then have tk: "k \<le> t" by simp
    have p1: "\<forall>j<length ms. dim2 (ms ! j) \<le> k"
      using cons.prems(1) by (metis Suc_less_eq length_Cons nth_Cons_Suc)
    have p2: "\<forall>j. j + 1 < length ms \<longrightarrow> dim2 (ms ! j) = k"
    proof (intro allI impI)
      fix j assume "j + 1 < length ms"
      then have "Suc j + 1 < length (m # ms)" by simp
      from cons.prems(2) [rule_format, OF this] show "dim2 (ms ! j) = k" by simp
    qed
    have p3: "t - k < sum_list (map dim2 ms)" using cons.prems(3) tk dm by simp
    from cons.IH [OF p1 p2 p3] have ih: "cat_item ms c f (t - k) = item (ms ! ((t - k) div k)) c f ((t - k) mod k)" .
    have dv: "t div k = Suc ((t - k) div k)" using tk assms(1) by (simp add: le_div_geq)
    have md: "t mod k = (t - k) mod k" using tk by (simp add: le_mod_geq)
    have "cat_item (m # ms) c f t = cat_item ms c f (t - k)"
      using False by (simp add: ms dm)
    then show ?thesis by (simp add: ih dv md)
  qed
qed

lemma telescope_nat:
  fixes g :: "nat \<Rightarrow> nat"
  assumes "\<forall>i. g i \<le> g (Suc i)"
  shows "(\<Sum>i = 0..<n. g (Suc i) - g i) = g n - g 0"
proof (induction n)
  case 0
  show ?case by simp
next
  case (Suc n)
  have "g 0 \<le> g n" using assms by (induction n) (auto intro: le_trans)
  with Suc assms [rule_format, of n] show ?case by simp
qed

lemma sum_chunk_extents:
  fixes k T :: nat
  assumes "0 < k" and "length ms = (T + k - 1) div k"
    and "\<forall>i<length ms. dim2 (ms ! i) = min k (T - i * k)"
  shows "sum_list (map dim2 ms) = T"
proof -
  define n where "n = length ms"
  define g where "g i = min (i * k) T" for i
  have mono: "\<forall>i. g i \<le> g (Suc i)" by (simp add: g_def min_def)
  have e: "dim2 (ms ! i) = g (Suc i) - g i" if "i < n" for i
  proof -
    from that have "i * k < T" using chunk_start_lt [OF assms(1), of i T] assms(2) by (simp add: n_def)
    moreover have "min k (T - a) = min (k + a) T - min a T" if "a < T" for a :: nat
      using that by arith
    ultimately have "min k (T - i * k) = min (Suc i * k) T - min (i * k) T" by simp
    with that assms(3) show ?thesis by (simp add: g_def n_def)
  qed
  have "sum_list (map dim2 ms) = (\<Sum>i = 0..<n. dim2 (ms ! i))"
    by (simp add: n_def sum_list_sum_nth)
  also have "\<dots> = (\<Sum>i = 0..<n. g (Suc i) - g i)"
    by (rule sum.cong) (simp_all add: e)
  also have "\<dots> = g n - g 0" using mono by (rule telescope_nat)
  also have "\<dots> = T"
  proof -
    have "T + k - 1 < n * k + k"
      unfolding n_def assms(2) using dividend_less_times_div [of k "T + k - 1"] assms(1)
      by (simp add: algebra_simps)
    then have "T \<le> n * k" using assms(1) by simp
    then show ?thesis by (simp add: g_def)
  qed
  finally show ?thesis .
qed


text \<open>
  C10. For every spectrogram with at least one channel and one time frame, every positive
  chunk size and every engine whose answer always has the shape
  \<^verbatim>\<open>[4, Fo, chunk_size]\<close>: the adapter processes \<open>\<lceil>T / chunk_size\<rceil>\<close> chunks; each
  chunk meets \<^const>\<open>chunk_spec\<close> (zero padding only at times past the end of the
  spectrogram, the mask trimmed to the chunk's own extent); every chunk but the last is
  full, so only the last one can be padded; and the result has exactly \<open>T\<close> time frames,
  the entry at time \<open>t\<close> being the entry \<open>t mod chunk_size\<close> of chunk \<open>t div chunk_size\<close>.
\<close>

theorem run_onnx_inference_time_frames:
  assumes s: "shape spectrogram = (C, F, T)" and C: "1 \<le> C" and T: "1 \<le> T"
    and cs: "0 < chunk_size"
    and inf: "\<forall>x. shape (infer x) = (4, Fo, nat chunk_size)"
  shows "\<exists>masks full_mask.
     chunk_masks infer spectrogram chunk_size = Inr masks \<and>
     int (length masks) = \<lceil>real T / real_of_int chunk_size\<rceil> \<and>
     (\<forall>i<length masks. chunk_spec infer spectrogram Fo (nat chunk_size) i (masks ! i)) \<and>
     (\<forall>i. i + 1 < length masks \<longrightarrow> (i + 1) * nat chunk_size \<le> T) \<and>
     run_onnx_inference infer spectrogram chunk_size = Inr full_mask \<and>
     shape full_mask = (2, Fo, T) \<and>
     (\<forall>c<2. \<forall>f<Fo. \<forall>t<T.
        item full_mask c f t = item (masks ! (t div nat chunk_size)) c f (t mod nat chunk_size))"
proof -
  define k where "k = nat chunk_size"
  define n where "n = (T + k - 1) div k"
  have k: "0 < k" and ck: "chunk_size = int k" using cs by (simp_all add: k_def)
  have d: "dim0 spectrogram = C" "dim1 spectrogram = F" "dim2 spectrogram = T"
    using dims_of_shape [OF s] by simp_all
  have inf': "\<forall>x. shape (infer x) = (4, Fo, k)" using inf by (simp add: k_def)
  have "int T + int k - 1 = int (T + k - 1)" using k by (simp add: of_nat_diff)
  then have "(int T + int k - 1) div int k = int n"
    by (simp only: n_def zdiv_int)
  then have fd: "py_floordiv (int T + int k - 1) (int k) = Inr (int n)"
    using k by (simp add: py_floordiv_def)
  have rg: "py_range (int n) = map int [0..<n]" by (simp only: py_range_def nat_int)
  have pre: "\<forall>i\<in>set [0..<n]. \<exists>m.
      process_chunk infer (truncate_bins (np_map Re spectrogram) F)
        (truncate_bins (np_map Im spectrogram) F) C T (int k) (int i) = Inr m \<and>
      chunk_spec infer spectrogram Fo k i m"
  proof
    fix i assume "i \<in> set [0..<n]"
    then have "i < (T + k - 1) div k" by (simp add: n_def)
    with k have "i * k < T" by (rule chunk_start_lt)
    with s C k show "\<exists>m.
      process_chunk infer (truncate_bins (np_map Re spectrogram) F)
        (truncate_bins (np_map Im spectrogram) F) C T (int k) (int i) = Inr m \<and>
      chunk_spec infer spectrogram Fo k i m"
      using inf' by (rule process_chunk_ok)
  qed
  from chunk_loop_ok [OF pre] obtain masks where
    lp: "chunk_loop infer (truncate_bins (np_map Re spectrogram) F)
        (truncate_bins (np_map Im spectrogram) F) C T (int k) (map int [0..<n]) = Inr masks"
    and ln: "length masks = n"
    and sp0: "\<forall>j<length [0..<n]. chunk_spec infer spectrogram Fo k ([0..<n] ! j) (masks ! j)"
    by auto
  have sp: "chunk_spec infer spectrogram Fo k j (masks ! j)" if "j < n" for j
    using sp0 [rule_format, of j] that by simp
  have cm: "chunk_masks infer spectrogram chunk_size = Inr masks"
    by (simp only: chunk_masks_def Let_def d ck fd sum.case rg lp)
  have cl: "int (length masks) = \<lceil>real T / real_of_int chunk_size\<rceil>"
    unfolding ck ln n_def using num_chunks_ceiling [OF k, of T] by simp
  have shp: "shape (masks ! j) = (2, Fo, min k (T - j * k))" if "j < n" for j
    using sp [OF that] by (auto simp: chunk_spec_def d)
  have dm: "dim0 (masks ! j) = 2" "dim1 (masks ! j) = Fo" "dim2 (masks ! j) = min k (T - j * k)"
    if "j < n" for j
    using dims_of_shape [OF shp [OF that]] by simp_all
  have full: "(j + 1) * k \<le> T" if "j + 1 < n" for j
    using chunk_full [OF k, of j T] that by (simp add: n_def)
  have n1: "1 \<le> n" using num_chunks_pos [OF k T] by (simp add: n_def)
  then obtain m ms where mm: "masks = m # ms" using ln by (cases masks) auto
  have m0: "dim0 m = 2" "dim1 m = Fo" using dm [of 0] n1 by (simp_all add: mm)
  have same: "\<not> list_ex (\<lambda>m'. (dim0 m', dim1 m') \<noteq> (dim0 m, dim1 m)) ms"
  proof -
    have "(dim0 m', dim1 m') = (2, Fo)" if "m' \<in> set ms" for m'
    proof -
      from that obtain j where j: "j < length ms" "ms ! j = m'" by (auto simp: in_set_conv_nth)
      then have "Suc j < n" using ln mm by simp
      from dm(1,2) [OF this] j show ?thesis by (simp add: mm)
    qed
    then show ?thesis by (auto simp: list_ex_iff m0)
  qed
  have sm: "sum_list (map dim2 masks) = T"
  proof (rule sum_chunk_extents [OF k])
    show "length masks = (T + k - 1) div k" by (simp add: ln n_def)
    show "\<forall>i<length masks. dim2 (masks ! i) = min k (T - i * k)" using dm(3) ln by simp
  qed
  define full_mask where "full_mask = mk3 (2, Fo, T) (cat_item masks)"
  have cc: "concatenate_axis2 masks = Inr full_mask"
    using same sm by (simp add: concatenate_axis2_def mm m0 full_mask_def)
  have ro: "run_onnx_inference infer spectrogram chunk_size = Inr full_mask"
    by (simp add: run_onnx_inference_def cm cc)
  have sf: "shape full_mask = (2, Fo, T)" by (simp add: full_mask_def)
  have ci: "cat_item masks c f t = item (masks ! (t div k)) c f (t mod k)" if "t < T" for c f t
  proof (rule cat_item_div_mod [OF k])
    show "masks \<noteq> []" by (simp add: mm)
    show "\<forall>j<length masks. dim2 (masks ! j) \<le> k" using dm(3) ln by simp
    show "\<forall>j. j + 1 < length masks \<longrightarrow> dim2 (masks ! j) = k"
    proof (intro allI impI)
      fix j assume a: "j + 1 < length masks"
      then have "j < n" "j + 1 < n" using ln by simp_all
      from dm(3) [OF this(1)] full [OF this(2)] show "dim2 (masks ! j) = k" by simp
    qed
    show "t < sum_list (map dim2 masks)" using that sm by simp
  qed
  have it: "item full_mask c f t = item (masks ! (t div k)) c f (t mod k)"
    if "c < 2" "f < Fo" "t < T" for c f t
    using that ci by (simp add: full_mask_def)
  have a3: "\<forall>i<length masks. chunk_spec infer spectrogram Fo (nat chunk_size) i (masks ! i)"
    using sp ln by (simp add: k_def)
  have a4: "\<forall>i. i + 1 < length masks \<longrightarrow> (i + 1) * nat chunk_size \<le> T"
    using full ln by (simp add: k_def)
  have a7: "\<forall>c<2. \<forall>f<Fo. \<forall>t<T.
        item full_mask c f t = item (masks ! (t div nat chunk_size)) c f (t mod nat chunk_size)"
    using it by (simp add: k_def)
  from cm cl a3 a4 ro sf a7 show ?thesis by blast
qed


theorem run_onnx_inference_time_frames_witness:
  "shape (mk3 (1, 1, 3) (\<lambda>c f t. Complex (real t) 1)) = (1, 1, 3) \<and>
   (1::nat) \<le> 1 \<and> (1::nat) \<le> 3 \<and> (0::int) < 2 \<and>
   (\<forall>x. shape ((\<lambda>x. mk3 (4, 1, 2) (item x)) x) = (4, 1, nat 2)) \<and>
   (\<exists>masks full_mask.
      chunk_masks (\<lambda>x. mk3 (4, 1, 2) (item x)) (mk3 (1, 1, 3) (\<lambda>c f t. Complex (real t) 1)) 2
        = Inr masks \<and>
      length masks = 2 \<and>
      run_onnx_inference (\<lambda>x. mk3 (4, 1, 2) (item x)) (mk3 (1, 1, 3) (\<lambda>c f t. Complex (real t) 1)) 2
        = Inr full_mask \<and>
      shape full_mask = (2, 1, 3) \<and>
      item full_mask 0 0 2 = item (masks ! 1) 0 0 0)"
proof -
  have h: "shape (mk3 (1, 1, 3) (\<lambda>c f t. Complex (real t) 1)) = (1, 1, 3)"
    "(1::nat) \<le> 1" "(1::nat) \<le> 3" "(0::int) < 2"
    "\<forall>x. shape ((\<lambda>x. mk3 (4, 1, 2) (item x)) x) = (4, 1, nat 2)"
    by simp_all
  have c: "\<lceil>real 3 / real_of_int 2\<rceil> = 2" by simp
  from run_onnx_inference_time_frames [OF h] obtain masks full_mask where
    m: "chunk_masks (\<lambda>x. mk3 (4, 1, 2) (item x)) (mk3 (1, 1, 3) (\<lambda>c f t. Complex (real t) 1)) 2
        = Inr masks"
    and l: "int (length masks) = \<lceil>real 3 / real_of_int 2\<rceil>"
    and r: "run_onnx_inference (\<lambda>x. mk3 (4, 1, 2) (item x))
              (mk3 (1, 1, 3) (\<lambda>c f t. Complex (real t) 1)) 2 = Inr full_mask"
    and sh: "shape full_mask = (2, 1, 3)"
    and it: "\<forall>c<2. \<forall>f<1. \<forall>t<3. item full_mask c f t = item (masks ! (t div nat 2)) c f (t mod nat 2)"
    by blast
  from l have l2: "length masks = 2" unfolding c by simp
  from it [rule_format, of 0 0 2] have "item full_mask 0 0 2 = item (masks ! 1) 0 0 0" by simp
  with h m l2 r sh show ?thesis by blast
qed

section \<open>Applying a mask\<close>

lemma mk3_cong:
  assumes "\<And>c f t. c < C \<Longrightarrow> f < F \<Longrightarrow> t < T \<Longrightarrow> g c f t = g' c f t"
  shows "mk3 (C, F, T) g = mk3 (C, F, T) g'"
  using assms by (simp add: mk3_def)

lemma broadcast_dim_same [simp]: "broadcast_dim a a = Inr a"
  by (simp add: broadcast_dim_def)

lemma broadcast_dim_error:
  "broadcast_dim a b = Inl e \<longleftrightarrow> e = ValueError \<and> a \<noteq> b \<and> a \<noteq> 1 \<and> b \<noteq> 1"
  by (auto simp: broadcast_dim_def)

lemma apply_mask_same_shape:
  assumes "shape spectrogram = shape mask'"
  shows "apply_mask spectrogram mask'
           = Inr (mk3 (shape spectrogram) (\<lambda>c f t. item spectrogram c f t * item mask' c f t))"
proof -
  obtain C F T where s: "shape spectrogram = (C, F, T)" by (cases "shape spectrogram") auto
  with assms have m: "shape mask' = (C, F, T)" by simp
  have d: "dim0 spectrogram = C" "dim1 spectrogram = F" "dim2 spectrogram = T"
    "dim0 mask' = C" "dim1 mask' = F" "dim2 mask' = T"
    using dims_of_shape [OF s] dims_of_shape [OF m] by simp_all
  have "mk3 (C, F, T) (\<lambda>c f t. bitem spectrogram c f t * bitem mask' c f t)
      = mk3 (C, F, T) (\<lambda>c f t. item spectrogram c f t * item mask' c f t)"
    by (rule mk3_cong) (auto simp: bitem_def d)
  then show ?thesis
    by (simp add: apply_mask_def s m broadcast_shape_def)
qed

lemma apply_mask_error:
  "apply_mask spectrogram mask' = Inl e \<longleftrightarrow>
     e = ValueError \<and>
     (dim0 spectrogram \<noteq> dim0 mask' \<and> dim0 spectrogram \<noteq> 1 \<and> dim0 mask' \<noteq> 1 \<or>
      dim1 spectrogram \<noteq> dim1 mask' \<and> dim1 spectrogram \<noteq> 1 \<and> dim1 mask' \<noteq> 1 \<or>
      dim2 spectrogram \<noteq> dim2 mask' \<and> dim2 spectrogram \<noteq> 1 \<and> dim2 mask' \<noteq> 1)"
proof -
  obtain C F T where s: "shape spectrogram = (C, F, T)" by (cases "shape spectrogram") auto
  obtain C' F' T' where m: "shape mask' = (C', F', T')" by (cases "shape mask'") auto
  have d: "dim0 spectrogram = C" "dim1 spectrogram = F" "dim2 spectrogram = T"
    "dim0 mask' = C'" "dim1 mask' = F'" "dim2 mask' = T'"
    using dims_of_shape [OF s] dims_of_shape [OF m] by simp_all
  show ?thesis
    unfolding d apply_mask_def s m broadcast_shape_def
    by (auto simp: broadcast_dim_def split: sum.splits)
qed


lemma apply_mask_broadcast_ok:
  assumes "apply_mask spectrogram mask' = Inr r" and "c < dim0 r" and "f < dim1 r" and "t < dim2 r"
  shows "item r c f t = bitem spectrogram c f t * bitem mask' c f t"
proof -
  from assms(1) obtain sh where sh: "broadcast_shape (shape spectrogram) (shape mask') = Inr sh"
    and r: "r = mk3 sh (\<lambda>c f t. bitem spectrogram c f t * bitem mask' c f t)"
    by (auto simp: apply_mask_def split: sum.splits)
  obtain C F T where c: "sh = (C, F, T)" by (cases sh) auto
  from assms(2-4) show ?thesis unfolding r c by simp
qed

lemma apply_mask_returns:
  assumes "\<not> (dim0 spectrogram \<noteq> dim0 mask' \<and> dim0 spectrogram \<noteq> 1 \<and> dim0 mask' \<noteq> 1 \<or>
       dim1 spectrogram \<noteq> dim1 mask' \<and> dim1 spectrogram \<noteq> 1 \<and> dim1 mask' \<noteq> 1 \<or>
       dim2 spectrogram \<noteq> dim2 mask' \<and> dim2 spectrogram \<noteq> 1 \<and> dim2 mask' \<noteq> 1)"
  shows "apply_mask spectrogram mask'
     = Inr (mk3 (if dim0 spectrogram = 1 then dim0 mask' else dim0 spectrogram,
                 if dim1 spectrogram = 1 then dim1 mask' else dim1 spectrogram,
                 if dim2 spectrogram = 1 then dim2 mask' else dim2 spectrogram)
              (\<lambda>c f t.
                 item spectrogram (if dim0 spectrogram = 1 then 0 else c)
                   (if dim1 spectrogram = 1 then 0 else f) (if dim2 spectrogram = 1 then 0 else t)
                 * item mask' (if dim0 mask' = 1 then 0 else c)
                     (if dim1 mask' = 1 then 0 else f) (if dim2 mask' = 1 then 0 else t)))"
proof -
  obtain C F T where s: "shape spectrogram = (C, F, T)" by (cases "shape spectrogram") auto
  obtain C' F' T' where m: "shape mask' = (C', F', T')" by (cases "shape mask'") auto
  have d: "dim0 spectrogram = C" "dim1 spectrogram = F" "dim2 spectrogram = T"
    "dim0 mask' = C'" "dim1 mask' = F'" "dim2 mask' = T'"
    using dims_of_shape [OF s] dims_of_shape [OF m] by simp_all
  have b: "broadcast_dim C C' = Inr (if C = 1 then C' else C)"
    "broadcast_dim F F' = Inr (if F = 1 then F' else F)"
    "broadcast_dim T T' = Inr (if T = 1 then T' else T)"
    using assms unfolding d by (auto simp: broadcast_dim_def)
  show ?thesis
    unfolding apply_mask_def s m broadcast_shape_def bitem_def d
    by (simp only: prod.case b sum.case)
qed

lemma apply_mask_value_error:
  "apply_mask spectrogram mask' = Inl ValueError \<longleftrightarrow>
     (dim0 spectrogram \<noteq> dim0 mask' \<and> dim0 spectrogram \<noteq> 1 \<and> dim0 mask' \<noteq> 1 \<or>
      dim1 spectrogram \<noteq> dim1 mask' \<and> dim1 spectrogram \<noteq> 1 \<and> dim1 mask' \<noteq> 1 \<or>
      dim2 spectrogram \<noteq> dim2 mask' \<and> dim2 spectrogram \<noteq> 1 \<and> dim2 mask' \<noteq> 1)"
  using apply_mask_error [of spectrogram mask' ValueError] by simp

text \<open>
  C7, as stated, fails: a spectrogram of shape \<open>(2, 1, 1)\<close> and a mask of shape
  \<open>(1, 1, 1)\<close> do not match exactly, and \<^verbatim>\<open>apply_mask\<close> returns their broadcast
  product instead of failing.
\<close>

theorem apply_mask_counterexample:
  "shape \<lparr>shape = (2, 1, 1), vals = [[[3]], [[3 :: complex]]]\<rparr>
     \<noteq> shape \<lparr>shape = (1, 1, 1), vals = [[[2 :: complex]]]\<rparr> \<and>
   apply_mask \<lparr>shape = (2, 1, 1), vals = [[[3]], [[3]]]\<rparr> \<lparr>shape = (1, 1, 1), vals = [[[2]]]\<rparr>
     = Inr \<lparr>shape = (2, 1, 1), vals = [[[6]], [[6]]]\<rparr>"
  by (simp add: apply_mask_def broadcast_shape_def broadcast_dim_def mk3_def bitem_def item_def
      dim0_def dim1_def dim2_def upt_rec)

text \<open>
  C7, amended. \<^verbatim>\<open>apply_mask\<close> returns the elementwise complex product when the two
  shapes match exactly. It fails, with NumPy's \<^verbatim>\<open>ValueError\<close> (there is no
  \<^verbatim>\<open>ShapeMismatch\<close> and no shape check), exactly when on some axis the two extents
  differ and neither is 1. In every other case it returns the broadcast product: on each
  axis the result has the mask's extent where the spectrogram's extent is 1 and the
  spectrogram's extent otherwise, and each entry is the product of the two operands'
  entries at that index, an operand of extent 1 on an axis giving its only entry there.
\<close>

theorem apply_mask_broadcast:
  "(shape spectrogram = shape mask' \<longrightarrow>
      apply_mask spectrogram mask'
        = Inr (mk3 (shape spectrogram) (\<lambda>c f t. item spectrogram c f t * item mask' c f t))) \<and>
   (apply_mask spectrogram mask' = Inl ValueError \<longleftrightarrow>
      (dim0 spectrogram \<noteq> dim0 mask' \<and> dim0 spectrogram \<noteq> 1 \<and> dim0 mask' \<noteq> 1 \<or>
       dim1 spectrogram \<noteq> dim1 mask' \<and> dim1 spectrogram \<noteq> 1 \<and> dim1 mask' \<noteq> 1 \<or>
       dim2 spectrogram \<noteq> dim2 mask' \<and> dim2 spectrogram \<noteq> 1 \<and> dim2 mask' \<noteq> 1)) \<and>
   (\<not> (dim0 spectrogram \<noteq> dim0 mask' \<and> dim0 spectrogram \<noteq> 1 \<and> dim0 mask' \<noteq> 1 \<or>
        dim1 spectrogram \<noteq> dim1 mask' \<and> dim1 spectrogram \<noteq> 1 \<and> dim1 mask' \<noteq> 1 \<or>
        dim2 spectrogram \<noteq> dim2 mask' \<and> dim2 spectrogram \<noteq> 1 \<and> dim2 mask' \<noteq> 1) \<longrightarrow>
      apply_mask spectrogram mask'
        = Inr (mk3 (if dim0 spectrogram = 1 then dim0 mask' else dim0 spectrogram,
                    if dim1 spectrogram = 1 then dim1 mask' else dim1 spectrogram,
                    if dim2 spectrogram = 1 then dim2 mask' else dim2 spectrogram)
                 (\<lambda>c f t.
                    item spectrogram (if dim0 spectrogram = 1 then 0 else c)
                      (if dim1 spectrogram = 1 then 0 else f) (if dim2 spectrogram = 1 then 0 else t)
                    * item mask' (if dim0 mask' = 1 then 0 else c)
                        (if dim1 mask' = 1 then 0 else f) (if dim2 mask' = 1 then 0 else t))))"
  using apply_mask_same_shape [of spectrogram mask'] apply_mask_value_error [of spectrogram mask']
    apply_mask_returns [of spectrogram mask']
  by blast

theorem apply_mask_broadcast_witness:
  "shape (mk3 (1, 1, 2) (\<lambda>c f t. \<i>)) = shape (mk3 (1, 1, 2) (\<lambda>c f t. 2 :: complex)) \<and>
   apply_mask (mk3 (1, 1, 2) (\<lambda>c f t. \<i>)) (mk3 (1, 1, 2) (\<lambda>c f t. 2))
     = Inr (mk3 (1, 1, 2) (\<lambda>c f t. 2 * \<i>)) \<and>
   apply_mask (mk3 (2, 1, 1) (\<lambda>c f t. 3)) (mk3 (1, 1, 1) (\<lambda>c f t. 2))
     = Inr (mk3 (2, 1, 1) (\<lambda>c f t. 6)) \<and>
   dim0 (mk3 (2, 1, 1) (\<lambda>c f t. 3 :: complex)) \<noteq> dim0 (mk3 (3, 1, 1) (\<lambda>c f t. 2 :: complex)) \<and>
   dim0 (mk3 (2, 1, 1) (\<lambda>c f t. 3 :: complex)) \<noteq> 1 \<and>
   dim0 (mk3 (3, 1, 1) (\<lambda>c f t. 2 :: complex)) \<noteq> 1 \<and>
   apply_mask (mk3 (2, 1, 1) (\<lambda>c f t. 3)) (mk3 (3, 1, 1) (\<lambda>c f t. 2)) = Inl ValueError"
proof -
  have e: "shape (mk3 (1, 1, 2) (\<lambda>c f t. \<i>)) = shape (mk3 (1, 1, 2) (\<lambda>c f t. 2 :: complex))"
    by simp
  have m: "mk3 (shape (mk3 (1, 1, 2) (\<lambda>c f t. \<i>)))
             (\<lambda>c f t. item (mk3 (1, 1, 2) (\<lambda>c f t. \<i>)) c f t * item (mk3 (1, 1, 2) (\<lambda>c f t. 2)) c f t)
           = mk3 (1, 1, 2) (\<lambda>c f t. 2 * \<i>)"
    unfolding shape_mk3 by (rule mk3_cong) simp
  from apply_mask_broadcast [of "mk3 (1, 1, 2) (\<lambda>c f t. \<i>)" "mk3 (1, 1, 2) (\<lambda>c f t. 2)"] e
  have a: "apply_mask (mk3 (1, 1, 2) (\<lambda>c f t. \<i>)) (mk3 (1, 1, 2) (\<lambda>c f t. 2))
             = Inr (mk3 (1, 1, 2) (\<lambda>c f t. 2 * \<i>))"
    unfolding m by blast
  let ?A = "mk3 (2, 1, 1) (\<lambda>c f t. 3 :: complex)"
  let ?B = "mk3 (1, 1, 1) (\<lambda>c f t. 2 :: complex)"
  let ?raw = "mk3 (if dim0 ?A = 1 then dim0 ?B else dim0 ?A,
                   if dim1 ?A = 1 then dim1 ?B else dim1 ?A,
                   if dim2 ?A = 1 then dim2 ?B else dim2 ?A)
                (\<lambda>c f t.
                   item ?A (if dim0 ?A = 1 then 0 else c)
                     (if dim1 ?A = 1 then 0 else f) (if dim2 ?A = 1 then 0 else t)
                   * item ?B (if dim0 ?B = 1 then 0 else c)
                       (if dim1 ?B = 1 then 0 else f) (if dim2 ?B = 1 then 0 else t))"
  have nd: "\<not> (dim0 ?A \<noteq> dim0 ?B \<and> dim0 ?A \<noteq> 1 \<and> dim0 ?B \<noteq> 1 \<or>
              dim1 ?A \<noteq> dim1 ?B \<and> dim1 ?A \<noteq> 1 \<and> dim1 ?B \<noteq> 1 \<or>
              dim2 ?A \<noteq> dim2 ?B \<and> dim2 ?A \<noteq> 1 \<and> dim2 ?B \<noteq> 1)"
    by simp
  have sh: "(if dim0 ?A = 1 then dim0 ?B else dim0 ?A,
             if dim1 ?A = 1 then dim1 ?B else dim1 ?A,
             if dim2 ?A = 1 then dim2 ?B else dim2 ?A) = (2, 1, 1)"
    by simp
  have r: "?raw = mk3 (2, 1, 1) (\<lambda>c f t. 6)"
    unfolding sh by (rule mk3_cong) simp
  from apply_mask_broadcast [of ?A ?B] nd have "apply_mask ?A ?B = Inr ?raw" by blast
  then have b: "apply_mask ?A ?B = Inr (mk3 (2, 1, 1) (\<lambda>c f t. 6))" unfolding r .
  have d: "dim0 (mk3 (2, 1, 1) (\<lambda>c f t. 3 :: complex)) \<noteq> dim0 (mk3 (3, 1, 1) (\<lambda>c f t. 2 :: complex))"
    "dim0 (mk3 (2, 1, 1) (\<lambda>c f t. 3 :: complex)) \<noteq> 1"
    "dim0 (mk3 (3, 1, 1) (\<lambda>c f t. 2 :: complex)) \<noteq> 1"
    by simp_all
  from apply_mask_broadcast [of "mk3 (2, 1, 1) (\<lambda>c f t. 3)" "mk3 (3, 1, 1) (\<lambda>c f t. 2)"] d
  have c: "apply_mask (mk3 (2, 1, 1) (\<lambda>c f t. 3)) (mk3 (3, 1, 1) (\<lambda>c f t. 2)) = Inl ValueError"
    by blast
  from e a b d c show ?thesis by blast
qed

section \<open>The complement mask\<close>

lemma cis_arctan_pos:
  assumes "0 < x"
  shows "cis (arctan (y / x)) = Complex x y / complex_of_real (sqrt (x\<^sup>2 + y\<^sup>2))"
proof -
  have "1 + (y / x)\<^sup>2 = (x\<^sup>2 + y\<^sup>2) / x\<^sup>2"
    using assms by (simp add: field_simps power2_eq_square)
  then have "sqrt (1 + (y / x)\<^sup>2) = sqrt (x\<^sup>2 + y\<^sup>2) / x"
    using assms by (simp add: real_sqrt_divide)
  moreover have "sqrt (x\<^sup>2 + y\<^sup>2) \<noteq> 0" using assms by (simp add: sum_power2_eq_zero_iff)
  ultimately show ?thesis
    using assms by (simp add: complex_eq_iff cos_arctan sin_arctan)
qed

lemma cis_arctan_neg:
  assumes "x < 0"
  shows "- cis (arctan (y / x)) = Complex x y / complex_of_real (sqrt (x\<^sup>2 + y\<^sup>2))"
proof -
  have "1 + (y / x)\<^sup>2 = (x\<^sup>2 + y\<^sup>2) / x\<^sup>2"
    using assms by (simp add: field_simps power2_eq_square)
  then have "sqrt (1 + (y / x)\<^sup>2) = sqrt (x\<^sup>2 + y\<^sup>2) / (- x)"
    using assms by (simp add: real_sqrt_divide)
  moreover have "sqrt (x\<^sup>2 + y\<^sup>2) \<noteq> 0" using assms by (simp add: sum_power2_eq_zero_iff)
  ultimately show ?thesis
    using assms by (simp add: complex_eq_iff cos_arctan sin_arctan)
qed

lemma cis_np_angle:
  assumes "z \<noteq> 0"
  shows "cis (np_angle z) = sgn z"
proof -
  obtain x y where z: "z = Complex x y" by (cases z) auto
  have s: "sgn (Complex x y) = Complex x y / complex_of_real (sqrt (x\<^sup>2 + y\<^sup>2))"
    by (simp add: sgn_eq cmod_def)
  have "x \<noteq> 0 \<or> y \<noteq> 0" using assms z by (auto simp: complex_eq_iff)
  then consider "0 < x" | "x < 0" "0 \<le> y" | "x < 0" "y < 0" | "x = 0" "0 < y" | "x = 0" "y < 0"
    by atomize_elim arith
  then show ?thesis
  proof cases
    case 1
    then show ?thesis by (simp add: s np_angle_def arctan2_def z cis_arctan_pos)
  next
    case 2
    have "cis (arctan (y / x) + pi) = - cis (arctan (y / x))" by (simp add: minus_cis)
    with 2 show ?thesis by (simp add: s np_angle_def arctan2_def z cis_arctan_neg)
  next
    case 3
    have "cis (arctan (y / x) - pi) = - cis (arctan (y / x))" by (simp add: minus_cis')
    with 3 show ?thesis by (simp add: s np_angle_def arctan2_def z cis_arctan_neg)
  next
    case 4
    then show ?thesis by (simp add: np_angle_def arctan2_def z complex_eq_iff sgn_eq cmod_def)
  next
    case 5
    then show ?thesis by (simp add: np_angle_def arctan2_def z complex_eq_iff sgn_eq cmod_def)
  qed
qed

lemma np_angle_range: "- pi < np_angle z \<and> np_angle z \<le> pi"
proof -
  have a: "- (pi / 2) < arctan t" "arctan t < pi / 2" for t
    by (rule arctan_lbound) (rule arctan_ubound)
  have b: "arctan (y / x) \<le> 0" if "x < 0" "0 \<le> y" for x y :: real
    using that by (simp add: divide_nonneg_neg)
  have c: "0 < arctan (y / x)" if "x < 0" "y < 0" for x y :: real
    using that by (simp add: divide_neg_neg)
  show ?thesis
    unfolding np_angle_def arctan2_def
    using a [of "Im z / Re z"] b [of "Re z" "Im z"] c [of "Re z" "Im z"] pi_gt_zero
    by (auto simp: not_less)
qed

lemma np_angle_eq_Arg: "np_angle z = Arg z"
proof (cases "z = 0")
  case True
  then show ?thesis by (simp add: np_angle_def arctan2_def Arg_zero)
next
  case False
  have "Arg z = np_angle z"
    using cis_np_angle [OF False, symmetric] np_angle_range [of z]
    by (intro cis_Arg_unique) auto
  then show ?thesis by simp
qed

lemma instrumental_entry_eq:
  "instrumental_entry m = complex_of_real (1 - cmod m) * cis (Arg m)"
  by (simp add: instrumental_entry_def cis_conv_exp np_angle_eq_Arg)

lemma cmod_instrumental_entry: "cmod (instrumental_entry m) = \<bar>1 - cmod m\<bar>"
  by (simp only: instrumental_entry_eq norm_mult norm_of_real norm_cis mult_1_right)

text \<open>
  C6. The instrumental (complement) mask is, entry by entry,
  \<open>(1 - |m|) \<cdot> exp (i \<cdot> arg m)\<close>; its magnitude is \<open>|1 - |m||\<close> for every \<open>m\<close>, with no
  clamping: for \<open>m = 3\<close> it is 2.
\<close>

theorem instrumental_mask_complement:
  "instrumental_mask vocal_mask
     = np_map (\<lambda>m. complex_of_real (1 - cmod m) * cis (Arg m)) vocal_mask \<and>
   cmod (instrumental_entry m) = \<bar>1 - cmod m\<bar> \<and>
   cmod (instrumental_entry 3) = 2"
proof -
  have "instrumental_entry = (\<lambda>m. complex_of_real (1 - cmod m) * cis (Arg m))"
    by (rule ext) (rule instrumental_entry_eq)
  then have "instrumental_mask vocal_mask
     = np_map (\<lambda>m. complex_of_real (1 - cmod m) * cis (Arg m)) vocal_mask"
    by (simp add: instrumental_mask_def)
  moreover have "cmod (instrumental_entry 3) = 2"
    by (simp add: cmod_instrumental_entry)
  ultimately show ?thesis by (simp add: cmod_instrumental_entry)
qed

end
